theory Spec2Isabelle
  imports Complex_Main "HOL-Library.Monad_Syntax" "HOL-Library.Sublist" "HOL-Library.Multiset"
begin

section \<open>Data model\<close>

text \<open>
  The source is \<^verbatim>\<open>src/App.jsx\<close>.  Its computational core consists of the two
  functions \<^verbatim>\<open>haversineDistance\<close> and \<^verbatim>\<open>buildMinimumSpanningTree\<close>.

  A point is the object built from one row of the data file: the fields
  \<^verbatim>\<open>id\<close>, \<^verbatim>\<open>localidad\<close>, \<^verbatim>\<open>provincia\<close>, \<^verbatim>\<open>poblacion\<close>, \<^verbatim>\<open>estado\<close> are the strings
  of the row, \<^verbatim>\<open>lat\<close> and \<^verbatim>\<open>lng\<close> are numbers.  The field \<^verbatim>\<open>id\<close> is named
  \<open>id_pt\<close> here, since \<open>id\<close> is the identity function of HOL.

  Numbers: a JavaScript Number is an IEEE-754 double.  This development models
  Numbers as real numbers and \<^verbatim>\<open>Math.sin\<close>, \<^verbatim>\<open>Math.cos\<close>, \<^verbatim>\<open>Math.sqrt\<close>,
  \<^verbatim>\<open>Math.atan2\<close>, \<^verbatim>\<open>Math.PI\<close> as the exact functions and constant: rounding, NaN
  and the infinities are outside the model.
\<close>

record point =
  id_pt :: string
  localidad :: string
  provincia :: string
  poblacion :: string
  estado :: string
  lat :: real
  lng :: real

text \<open>
  An edge is the object literal pushed in the enumeration loop; \<^verbatim>\<open>from\<close> and
  \<^verbatim>\<open>to\<close> are named \<open>from_pt\<close> and \<open>to_pt\<close> (\<open>from\<close> is a keyword of Isar).
\<close>

record edge =
  from_pt :: point
  to_pt :: point
  distance :: real

section \<open>The distance metric\<close>

text \<open>
  \<^verbatim>\<open>Math.atan2(y, x)\<close> on real arguments: the angle of the point \<open>(x, y)\<close> in
  \<open>(-\<pi>, \<pi>]\<close>, and \<open>0\<close> at the origin.
\<close>

definition atan2 :: "real \<Rightarrow> real \<Rightarrow> real" where
  "atan2 y x =
     (if 0 < x then arctan (y / x)
      else if x < 0 then (if 0 \<le> y then arctan (y / x) + pi else arctan (y / x) - pi)
      else if 0 < y then pi / 2
      else if y < 0 then - (pi / 2)
      else 0)"

definition toRad :: "real \<Rightarrow> real" where
  "toRad x = (x * pi) / 180"

definition R :: real where
  "R = 6371"

definition aVal :: "point \<Rightarrow> point \<Rightarrow> real" where
  "aVal a b =
     (let dLat = toRad (lat b - lat a);
          dLng = toRad (lng b - lng a);
          lat1 = toRad (lat a);
          lat2 = toRad (lat b)
      in (sin (dLat / 2))\<^sup>2 + (sin (dLng / 2))\<^sup>2 * cos lat1 * cos lat2)"

text \<open>
  \<^verbatim>\<open>Math.sqrt\<close> of a negative number is NaN, whereas \<open>sqrt\<close> is defined on the negative
  reals.  Over the reals the two arguments of \<open>sqrt\<close> below are never negative
  (lemmas \<open>aVal_nonneg\<close> and \<open>aVal_le_1\<close>), so the difference is not met.
\<close>

definition haversineDistance :: "point \<Rightarrow> point \<Rightarrow> real" where
  "haversineDistance a b =
     (let c = 2 * atan2 (sqrt (aVal a b)) (sqrt (1 - aVal a b))
      in R * c)"

section \<open>The spanning tree builder\<close>

subsection \<open>Enumeration and sorting of the candidate edges\<close>

definition mk_edge :: "point \<Rightarrow> point \<Rightarrow> edge" where
  "mk_edge p q = \<lparr>from_pt = p, to_pt = q, distance = haversineDistance p q\<rparr>"

text \<open>
  The two nested \<^verbatim>\<open>for\<close> loops: \<open>i\<close> runs over \<open>0..<n\<close>, \<open>j\<close> over \<open>i+1..<n\<close>, and
  each pair pushes one edge at the end of \<^verbatim>\<open>edges\<close>.
\<close>

definition edges :: "point list \<Rightarrow> edge list" where
  "edges nodes =
     concat (map (\<lambda>i. map (\<lambda>j. mk_edge (nodes ! i) (nodes ! j)) [i + 1 ..< length nodes])
                 [0 ..< length nodes])"

text \<open>
  \<^verbatim>\<open>edges.sort((a, b) => a.distance - b.distance)\<close>: the comparator is negative
  exactly when \<open>a\<close> is strictly closer, and \<^verbatim>\<open>Array.prototype.sort\<close> is stable, so
  the result is the stable sort by the key \<open>distance\<close>.
\<close>

definition sorted_edges :: "point list \<Rightarrow> edge list" where
  "sorted_edges nodes = sort_key distance (edges nodes)"

subsection \<open>The object \<^verbatim>\<open>parent\<close>\<close>

text \<open>
  \<^verbatim>\<open>const parent = {}\<close> is an ordinary object: besides the properties stored in
  it (its own properties) it answers for the properties of \<^verbatim>\<open>Object.prototype\<close>.
  The values that flow through \<^verbatim>\<open>find\<close> are
  \<^item> ids, which are strings;
  \<^item> \<^verbatim>\<open>undefined\<close>, the value of a property that is absent;
  \<^item> the object \<^verbatim>\<open>Object.prototype\<close>, the value of the accessor property
    \<^verbatim>\<open>__proto__\<close>;
  \<^item> the functions that \<^verbatim>\<open>Object.prototype\<close> holds under the names
    \<open>inherited_names\<close>, read when no own property shadows them.
  A value used as a property key is converted to a string: \<^verbatim>\<open>undefined\<close> to
  \<^verbatim>\<open>"undefined"\<close>, \<^verbatim>\<open>Object.prototype\<close> to \<^verbatim>\<open>"[object Object]"\<close>, and a built-in
  function to its source text (written here as V8 prints it).
\<close>

datatype jsval = Str string | Undefined | ObjectPrototype | Inherited string

type_synonym parent_map = "string \<rightharpoonup> jsval"

definition inherited_names :: "string list" where
  "inherited_names =
     [''constructor'', ''__defineGetter__'', ''__defineSetter__'', ''hasOwnProperty'',
      ''__lookupGetter__'', ''__lookupSetter__'', ''isPrototypeOf'',
      ''propertyIsEnumerable'', ''toString'', ''valueOf'', ''toLocaleString'']"

fun key :: "jsval \<Rightarrow> string" where
  "key (Str s) = s"
| "key Undefined = ''undefined''"
| "key ObjectPrototype = ''[object Object]''"
| "key (Inherited n) =
     ''function '' @ (if n = ''constructor'' then ''Object'' else n) @ ''() { [native code] }''"

text \<open>
  Reading \<^verbatim>\<open>parent[k]\<close>.  The key \<^verbatim>\<open>__proto__\<close> is answered by the accessor of
  \<^verbatim>\<open>Object.prototype\<close>, which returns the prototype of \<^verbatim>\<open>parent\<close>; it is never an
  own property (see \<open>set_prop\<close>).  Any other key is answered by the own property,
  then by \<^verbatim>\<open>Object.prototype\<close>, and is \<^verbatim>\<open>undefined\<close> otherwise.
\<close>

definition get_prop :: "parent_map \<Rightarrow> jsval \<Rightarrow> jsval" where
  "get_prop parent k =
     (if key k = ''__proto__'' then ObjectPrototype
      else case parent (key k) of
             Some v \<Rightarrow> v
           | None \<Rightarrow> if key k \<in> set inherited_names then Inherited (key k) else Undefined)"

text \<open>
  Writing \<^verbatim>\<open>parent[k] = v\<close>.  The key \<^verbatim>\<open>__proto__\<close> runs the setter of
  \<^verbatim>\<open>Object.prototype\<close>, which ignores a value that is neither an object nor
  \<^verbatim>\<open>null\<close> and leaves the prototype as it is when given \<^verbatim>\<open>Object.prototype\<close>:
  nothing is stored.  (A function as value would replace the prototype; the
  builder only writes strings and \<^verbatim>\<open>undefined\<close>, lemma \<open>select_edges_plain\<close>.)
  Any other key creates or overwrites the own property, also when the name is
  inherited, since the inherited properties are writable data properties.
\<close>

definition set_prop :: "parent_map \<Rightarrow> jsval \<Rightarrow> jsval \<Rightarrow> parent_map" where
  "set_prop parent k v = (if key k = ''__proto__'' then parent else parent(key k \<mapsto> v))"

subsection \<open>Union-find\<close>

text \<open>
  \<^verbatim>\<open>find = (id) => (parent[id] !== id ? (parent[id] = find(parent[id])) : id)\<close>.
  The recursion follows the parent pointers and need not end on an arbitrary
  object, so the result is optional: \<open>None\<close> is a call that never returns.  The
  updated object is returned beside the root.
\<close>

partial_function (option) find_uf :: "parent_map \<Rightarrow> jsval \<Rightarrow> (jsval \<times> parent_map) option" where
  "find_uf parent i =
     (if get_prop parent i \<noteq> i
      then do {
        (r, parent') \<leftarrow> find_uf parent (get_prop parent i);
        Some (r, set_prop parent' i r)
      }
      else Some (i, parent))"

text \<open>
  \<^verbatim>\<open>union = (a, b) => { parent[find(a)] = find(b) }\<close>: the key expression is evaluated
  before the right-hand side.
\<close>

definition union_uf :: "parent_map \<Rightarrow> jsval \<Rightarrow> jsval \<Rightarrow> parent_map option" where
  "union_uf parent a b =
     do {
       (ra, parent1) \<leftarrow> find_uf parent a;
       (rb, parent2) \<leftarrow> find_uf parent1 b;
       Some (set_prop parent2 ra rb)
     }"

text \<open>\<^verbatim>\<open>nodes.forEach((n) => (parent[n.id] = n.id))\<close>, starting from \<^verbatim>\<open>{}\<close>.\<close>

definition init_parent :: "point list \<Rightarrow> parent_map" where
  "init_parent nodes =
     foldl (\<lambda>parent n. set_prop parent (Str (id_pt n)) (Str (id_pt n))) Map.empty nodes"

subsection \<open>The selection loop\<close>

text \<open>
  The state of \<^verbatim>\<open>for (const edge of edges)\<close> is the object \<^verbatim>\<open>parent\<close> and the
  array \<^verbatim>\<open>mst\<close>; \<^verbatim>\<open>mst.push(edge)\<close> appends.
\<close>

fun select_edges :: "edge list \<Rightarrow> parent_map \<Rightarrow> edge list \<Rightarrow> (parent_map \<times> edge list) option" where
  "select_edges [] parent mst = Some (parent, mst)"
| "select_edges (edge # rest) parent mst =
     do {
       (rootA, parent1) \<leftarrow> find_uf parent (Str (id_pt (from_pt edge)));
       (rootB, parent2) \<leftarrow> find_uf parent1 (Str (id_pt (to_pt edge)));
       if rootA \<noteq> rootB
       then do {
         parent3 \<leftarrow> union_uf parent2 rootA rootB;
         select_edges rest parent3 (mst @ [edge])
       }
       else select_edges rest parent2 mst
     }"

definition buildMinimumSpanningTree :: "point list \<Rightarrow> edge list option" where
  "buildMinimumSpanningTree nodes =
     do {
       (parent, mst) \<leftarrow> select_edges (sorted_edges nodes) (init_parent nodes) [];
       Some mst
     }"

section \<open>Specification-level notions\<close>

subsection \<open>The reference formula of the distance metric\<close>



subsection \<open>Representatives in the union-find object\<close>

text \<open>
  \<open>root_of p v r\<close>: following the parent pointers of \<open>p\<close> from the value \<open>v\<close>
  reaches the value \<open>r\<close>, which is its own parent.  The derivation is finite, so
  a value with a root lies on no cycle of parent pointers.
\<close>

inductive root_of :: "parent_map \<Rightarrow> jsval \<Rightarrow> jsval \<Rightarrow> bool" for p where
  root: "get_prop p r = r \<Longrightarrow> root_of p r r"
| step: "get_prop p v \<noteq> v \<Longrightarrow> root_of p (get_prop p v) r \<Longrightarrow> root_of p v r"

text \<open>
  The parent pointers form a forest: every value has a root.  The own
  properties are plain when they hold strings and \<^verbatim>\<open>undefined\<close> only.
\<close>

definition uf_inv :: "parent_map \<Rightarrow> bool" where
  "uf_inv p \<longleftrightarrow> (\<forall>v. \<exists>r. root_of p v r)"

definition plain_val :: "jsval \<Rightarrow> bool" where
  "plain_val v \<longleftrightarrow> (case v of Str s \<Rightarrow> True | Undefined \<Rightarrow> True | _ \<Rightarrow> False)"

definition plain :: "parent_map \<Rightarrow> bool" where
  "plain p \<longleftrightarrow> (\<forall>k v. p k = Some v \<longrightarrow> plain_val v)"

subsection \<open>Graphs of edges\<close>

text \<open>
  The union-find identifies a point with its id, so the graph of a set of edges
  has the ids as vertices.  \<open>conn T\<close> relates two ids joined by a path of edges
  of \<open>T\<close>, read in either direction; it is an equivalence.
\<close>

definition ends :: "edge \<Rightarrow> string \<times> string" where
  "ends e = (id_pt (from_pt e), id_pt (to_pt e))"

definition conn :: "edge set \<Rightarrow> (string \<times> string) set" where
  "conn T = (ends ` T \<union> (ends ` T)\<inverse>)\<^sup>*"

text \<open>A set of edges is acyclic when no edge joins two ids that the other edges join.\<close>

definition forest :: "edge set \<Rightarrow> bool" where
  "forest T \<longleftrightarrow> (\<forall>e\<in>T. ends e \<notin> conn (T - {e}))"

text \<open>
  A spanning forest of a set \<open>E\<close> of edges: an acyclic subset that joins whatever
  \<open>E\<close> joins.
\<close>

definition spanning_forest :: "edge set \<Rightarrow> edge set \<Rightarrow> bool" where
  "spanning_forest E T \<longleftrightarrow> T \<subseteq> E \<and> forest T \<and> (\<forall>g\<in>E. ends g \<in> conn T)"

text \<open>
  A spanning tree of the implicit complete graph on the points of \<open>nodes\<close>: a set of
  candidate edges (the complete graph has one edge for each pair of positions
  \<open>i < j\<close>), acyclic, that joins every two points.
\<close>

definition spanning_tree :: "point list \<Rightarrow> edge set \<Rightarrow> bool" where
  "spanning_tree nodes T \<longleftrightarrow>
     T \<subseteq> set (edges nodes) \<and> forest T
     \<and> (\<forall>u\<in>set nodes. \<forall>v\<in>set nodes. (id_pt u, id_pt v) \<in> conn T)"

abbreviation ids :: "point list \<Rightarrow> string set" where
  "ids nodes \<equiv> id_pt ` set nodes"

text \<open>
  The greedy selection that the loop implements, with the connectivity test
  stated on the accepted edges instead of the union-find object.
\<close>

fun kruskal_abs :: "edge list \<Rightarrow> edge list \<Rightarrow> edge list" where
  "kruskal_abs [] acc = acc"
| "kruskal_abs (e # es) acc =
     (if ends e \<in> conn (set acc) then kruskal_abs es acc else kruskal_abs es (acc @ [e]))"

text \<open>
  \<open>improvable E A\<close>: every spanning forest of \<open>E\<close> can be exchanged for one that
  contains \<open>A\<close> and is no heavier.
\<close>

definition improvable :: "edge set \<Rightarrow> edge set \<Rightarrow> bool" where
  "improvable E A \<longleftrightarrow>
     (\<forall>T. spanning_forest E T \<longrightarrow>
        (\<exists>T'. spanning_forest E T' \<and> A \<subseteq> T' \<and> sum distance T' \<le> sum distance T))"

text \<open>
  The representative of an id, the set of roots of the parent object, and the
  relation between the parent object and the accepted edges: two ids have the
  same representative exactly when the accepted edges join them.
\<close>

definition rep :: "parent_map \<Rightarrow> jsval \<Rightarrow> jsval" where
  "rep p v = (THE r. root_of p v r)"

definition roots :: "string set \<Rightarrow> parent_map \<Rightarrow> jsval set" where
  "roots I p = (\<lambda>i. rep p (Str i)) ` I"

definition uf_rel :: "string set \<Rightarrow> parent_map \<Rightarrow> edge set \<Rightarrow> bool" where
  "uf_rel I p A \<longleftrightarrow>
     uf_inv p \<and> (\<forall>i\<in>I. \<forall>j\<in>I. rep p (Str i) = rep p (Str j) \<longleftrightarrow> (i, j) \<in> conn A)"

text \<open>
  A set of ids is ordinary when it does not hold \<^verbatim>\<open>__proto__\<close> together with a
  key that the lookup of \<^verbatim>\<open>parent["__proto__"]\<close> runs through: the key of
  \<^verbatim>\<open>Object.prototype\<close> or the key of \<^verbatim>\<open>undefined\<close>.
\<close>

definition ordinary_ids :: "string set \<Rightarrow> bool" where
  "ordinary_ids I \<longleftrightarrow>
     (''__proto__'' \<in> I \<longrightarrow> ''[object Object]'' \<notin> I \<and> ''undefined'' \<notin> I)"

text \<open>
  The total distance of a list of edges is the sum of their \<open>distance\<close> fields.
  In \<open>fresh_edges mst\<close> no edge of the list joins two ids that the edges before it
  already join.
\<close>

definition total_distance :: "edge list \<Rightarrow> real" where
  "total_distance mst = sum_list (map distance mst)"

definition fresh_edges :: "edge list \<Rightarrow> bool" where
  "fresh_edges mst \<longleftrightarrow> (\<forall>k<length mst. ends (mst ! k) \<notin> conn (set (take k mst)))"

subsection \<open>The square layout\<close>

text \<open>
  The four points of the specification's minimality scenario, A(0,0), B(0,1),
  C(1,1), D(1,0), as (lat, lng) in degrees; the payload fields are empty.
\<close>

definition pt :: "string \<Rightarrow> real \<Rightarrow> real \<Rightarrow> point" where
  "pt i la lo =
     \<lparr>id_pt = i, localidad = [], provincia = [], poblacion = [], estado = [], lat = la, lng = lo\<rparr>"

definition sqA :: point where "sqA = pt ''A'' 0 0"
definition sqB :: point where "sqB = pt ''B'' 0 1"
definition sqC :: point where "sqC = pt ''C'' 1 1"
definition sqD :: point where "sqD = pt ''D'' 1 0"

definition square :: "point list" where
  "square = [sqA, sqB, sqC, sqD]"

subsection \<open>Two ids that meet in \<^verbatim>\<open>Object.prototype\<close>\<close>

text \<open>
  Two points with different ids, \<^verbatim>\<open>__proto__\<close> and \<^verbatim>\<open>undefined\<close>, one degree of
  longitude apart.
\<close>

definition clash :: "point list" where
  "clash = [pt ''__proto__'' 0 0, pt ''undefined'' 0 1]"


section \<open>Properties of the distance metric\<close>

lemma toRad_diff: "toRad (x - y) = toRad x - toRad y"
  by (simp add: toRad_def algebra_simps diff_divide_distrib)

lemma aVal_alt:
  "aVal a b = (sin ((toRad (lat b) - toRad (lat a)) / 2))\<^sup>2
     + (sin (toRad (lng b - lng a) / 2))\<^sup>2 * cos (toRad (lat a)) * cos (toRad (lat b))"
  by (simp add: aVal_def Let_def toRad_diff)

lemma sin_half_sq: "(sin (x / 2))\<^sup>2 = (1 - cos x) / (2::real)"
  using cos_double_sin [of "x / 2"] by simp

lemma cos_mult_cos: "cos x * cos y = (cos (y - x) + cos (x + y)) / (2::real)"
  by (simp add: cos_add cos_diff)

lemma hav_lower:
  fixes t D S :: real
  assumes "0 \<le> t" "t \<le> 1" "- 1 \<le> D" "D \<le> 1" "- 1 \<le> S" "S \<le> 1"
  shows "0 \<le> (1 - D) / 2 + t * ((D + S) / 2)"
proof -
  have eq: "(1 - D) / 2 + t * ((D + S) / 2) = ((1 - t) * (1 - D) + t * (1 + S)) / 2"
    by (simp add: field_simps)
  have "0 \<le> (1 - t) * (1 - D)" "0 \<le> t * (1 + S)"
    using assms by simp_all
  then have "0 \<le> (1 - t) * (1 - D) + t * (1 + S)"
    by (rule add_nonneg_nonneg)
  then show ?thesis
    unfolding eq by simp
qed

lemma hav_upper:
  fixes t D S :: real
  assumes "0 \<le> t" "t \<le> 1" "- 1 \<le> D" "D \<le> 1" "- 1 \<le> S" "S \<le> 1"
  shows "(1 - D) / 2 + t * ((D + S) / 2) \<le> 1"
proof -
  have eq: "(1 - D) / 2 + t * ((D + S) / 2) = 1 - ((1 - t) * (1 + D) + t * (1 - S)) / 2"
    by (simp add: field_simps)
  have "0 \<le> (1 - t) * (1 + D)" "0 \<le> t * (1 - S)"
    using assms by simp_all
  then have "0 \<le> (1 - t) * (1 + D) + t * (1 - S)"
    by (rule add_nonneg_nonneg)
  then show ?thesis
    unfolding eq by simp
qed

lemma aVal_hav:
  "aVal a b = (1 - cos (toRad (lat b) - toRad (lat a))) / 2
     + (sin (toRad (lng b - lng a) / 2))\<^sup>2
       * ((cos (toRad (lat b) - toRad (lat a)) + cos (toRad (lat a) + toRad (lat b))) / 2)"
  by (simp only: aVal_alt sin_half_sq mult.assoc cos_mult_cos)

lemma sin_sq_le_1: "(sin (x::real))\<^sup>2 \<le> 1"
  using abs_sin_le_one [of x] by (simp add: abs_square_le_1)

lemma aVal_nonneg: "0 \<le> aVal a b"
  unfolding aVal_hav by (rule hav_lower) (simp_all add: sin_sq_le_1)

lemma aVal_le_1: "aVal a b \<le> 1"
  unfolding aVal_hav by (rule hav_upper) (simp_all add: sin_sq_le_1)



lemma aVal_same: "lat a = lat b \<Longrightarrow> lng a = lng b \<Longrightarrow> aVal a b = 0"
  by (simp add: aVal_def toRad_def)

lemma haversineDistance_same: "lat a = lat b \<Longrightarrow> lng a = lng b \<Longrightarrow> haversineDistance a b = 0"
  by (simp add: haversineDistance_def aVal_same atan2_def)

lemma aVal_sym: "aVal a b = aVal b a"
proof -
  have neg: "toRad (x - y) / 2 = - (toRad (y - x) / 2)" for x y
    by (simp add: toRad_def field_simps)
  have "(sin (toRad (x - y) / 2))\<^sup>2 = (sin (toRad (y - x) / 2))\<^sup>2" for x y
    by (subst neg) (simp only: sin_minus power2_minus)
  then show ?thesis by (simp add: aVal_def Let_def mult.commute mult.left_commute)
qed

section \<open>Properties of the enumeration\<close>

lemma edges_Nil [simp]: "edges [] = []"
  by (simp add: edges_def)

text \<open>The nested loops, unrolled at the first point of the list.\<close>

lemma edges_Cons: "edges (x # xs) = map (mk_edge x) xs @ edges xs"
proof -
  let ?n = "length xs"
  have up: "[0 ..< Suc ?n] = 0 # map Suc [0 ..< ?n]"
    by (simp add: upt_conv_Cons map_Suc_upt del: upt_Suc)
  have inner: "[Suc a ..< Suc ?n] = map Suc [a ..< ?n]" for a
    by (simp add: map_Suc_upt)
  have hd: "map (\<lambda>j. mk_edge x ((x # xs) ! j)) [Suc 0 ..< Suc ?n] = map (mk_edge x) xs"
  proof -
    have "map (\<lambda>j. mk_edge x ((x # xs) ! j)) [Suc 0 ..< Suc ?n]
            = map (mk_edge x) (map (nth xs) [0 ..< ?n])"
      by (simp only: inner map_map o_def nth_Cons_Suc)
    then show ?thesis by (simp only: map_nth)
  qed
  have "edges (x # xs) =
      map (\<lambda>j. mk_edge x ((x # xs) ! j)) [Suc 0 ..< Suc ?n]
      @ concat (map (\<lambda>i. map (\<lambda>j. mk_edge (xs ! i) ((x # xs) ! j)) [Suc (Suc i) ..< Suc ?n])
                    [0 ..< ?n])"
    unfolding edges_def length_Cons up by (simp add: o_def del: upt_Suc)
  also have "\<dots> = map (mk_edge x) xs @ edges xs"
    unfolding hd edges_def by (simp only: inner map_map o_def nth_Cons_Suc Suc_eq_plus1 [symmetric])
  finally show ?thesis .
qed

lemma edges_square:
  "edges square = [mk_edge sqA sqB, mk_edge sqA sqC, mk_edge sqA sqD,
                   mk_edge sqB sqC, mk_edge sqB sqD, mk_edge sqC sqD]"
  by (simp add: square_def edges_Cons)

lemma in_edges_mk:
  "e \<in> set (edges nodes) \<Longrightarrow> \<exists>p\<in>set nodes. \<exists>q\<in>set nodes. e = mk_edge p q"
  by (induction nodes) (auto simp: edges_Cons)

lemma length_edges: "length (edges nodes) = length nodes * (length nodes - 1) div 2"
proof (induction nodes)
  case Nil
  show ?case by simp
next
  case (Cons x xs)
  have "length xs + length xs * (length xs - 1) div 2 = Suc (length xs) * length xs div 2"
  proof (cases "length xs")
    case 0
    then show ?thesis by simp
  next
    case (Suc m)
    have "Suc m + Suc m * m div 2 = (2 * Suc m + Suc m * m) div 2" by simp
    also have "2 * Suc m + Suc m * m = Suc (Suc m) * Suc m" by simp
    finally show ?thesis using Suc by simp
  qed
  with Cons show ?case by (simp add: edges_Cons)
qed


section \<open>Properties of the union-find operations\<close>

subsection \<open>Reading and writing properties\<close>

lemma key_proto_iff: "key v = ''__proto__'' \<longleftrightarrow> v = Str ''__proto__''"
  by (cases v) auto

lemma key_Inherited_not_inherited: "key (Inherited n) \<notin> set inherited_names"
  by (simp add: inherited_names_def)

lemma key_Inherited_neq: "n \<in> set inherited_names \<Longrightarrow> key (Inherited n) \<noteq> n"
  using key_Inherited_not_inherited [of n] by auto

lemma get_prop_cong_key: "key u = key v \<Longrightarrow> get_prop p u = get_prop p v"
  by (simp add: get_prop_def split: option.splits)

lemma get_prop_set_prop:
  "get_prop (set_prop p k v) u
     = (if key u = key k \<and> key k \<noteq> ''__proto__'' then v else get_prop p u)"
  by (auto simp: get_prop_def set_prop_def)

lemma root_key_not_proto: "get_prop p r = r \<Longrightarrow> key r \<noteq> ''__proto__''"
proof
  assume r: "get_prop p r = r" and k: "key r = ''__proto__''"
  from k have "get_prop p r = ObjectPrototype" by (simp add: get_prop_def)
  with r have "r = ObjectPrototype" by simp
  with k show False by simp
qed

lemma roots_same_key:
  "get_prop p a = a \<Longrightarrow> get_prop p b = b \<Longrightarrow> key a = key b \<Longrightarrow> a = b"
proof -
  assume a: "get_prop p a = a" and b: "get_prop p b = b" and k: "key a = key b"
  from k have "get_prop p a = get_prop p b" by (rule get_prop_cong_key)
  then show "a = b" by (simp only: a b)
qed

lemma root_plain:
  assumes r: "get_prop p r = r" and p: "plain p"
  shows "plain_val r"
proof (cases "p (key r)")
  case (Some v)
  with r root_key_not_proto [OF r] have "v = r" by (simp add: get_prop_def)
  with Some p show ?thesis by (auto simp: plain_def)
next
  case None
  show ?thesis
  proof (cases "key r \<in> set inherited_names")
    case True
    with None r root_key_not_proto [OF r] have "r = Inherited (key r)"
      by (simp add: get_prop_def)
    then have "key (Inherited (key r)) = key r" by simp
    with key_Inherited_neq [OF True] show ?thesis by simp
  next
    case False
    with None r root_key_not_proto [OF r] have "r = Undefined"
      by (simp add: get_prop_def)
    then show ?thesis by (simp add: plain_val_def)
  qed
qed

lemma plain_set_prop: "plain p \<Longrightarrow> plain_val v \<Longrightarrow> plain (set_prop p k v)"
  by (auto simp: plain_def set_prop_def)


subsection \<open>Roots\<close>

lemma root_of_is_root: "root_of p v r \<Longrightarrow> get_prop p r = r"
  by (induction rule: root_of.induct) auto

lemma root_of_det: "root_of p v r \<Longrightarrow> root_of p v s \<Longrightarrow> r = s"
proof (induction arbitrary: s rule: root_of.induct)
  case (root r)
  from root.prems show ?case
  proof (cases rule: root_of.cases)
    case root
    then show ?thesis by simp
  next
    case step
    with root.hyps show ?thesis by simp
  qed
next
  case (step v r)
  from step.prems show ?case
  proof (cases rule: root_of.cases)
    case root
    with step.hyps(1) show ?thesis by simp
  next
    case inner: step
    from inner(2) show ?thesis by (rule step.IH)
  qed
qed

lemma root_of_self: "get_prop p r = r \<Longrightarrow> root_of p v s \<Longrightarrow> v = r \<Longrightarrow> s = r"
  using root_of_det [of p r s r] root_of.root [of p r] by simp

text \<open>
  Two values that read the same parent have the same root, when the parent is
  not the value itself.
\<close>

lemma root_of_same_parent:
  assumes v: "root_of p v r" and w: "root_of p w s"
    and g: "get_prop p v = get_prop p w" and nw: "get_prop p w \<noteq> w"
  shows "r = s"
proof -
  from w nw have ws: "root_of p (get_prop p w) s"
    by (cases rule: root_of.cases) auto
  from v show ?thesis
  proof (cases rule: root_of.cases)
    case root
    then have "get_prop p w = r" using g by simp
    with ws have "root_of p r s" by simp
    moreover have "root_of p r r" using root by (simp add: root_of.root)
    ultimately show ?thesis by (rule root_of_det [symmetric])
  next
    case step
    then have "root_of p (get_prop p w) r" using g by simp
    then show ?thesis using ws by (rule root_of_det)
  qed
qed

lemma root_of_parent_root:
  assumes v: "root_of p v r" and g: "get_prop p v = s" and s: "get_prop p s = s"
  shows "r = s"
  using v
proof (cases rule: root_of.cases)
  case root
  with g show ?thesis by simp
next
  case step
  then have "root_of p s r" using g by simp
  moreover have "root_of p s s" using s by (rule root_of.root)
  ultimately show ?thesis by (rule root_of_det)
qed


subsection \<open>Path compression keeps the roots\<close>

lemma compress_root_of:
  assumes v: "root_of p v r" and w: "root_of p w s"
  shows "root_of (set_prop p v r) w s"
proof (cases "key v = ''__proto__''")
  case True
  then show ?thesis using w by (simp add: set_prop_def)
next
  case False
  let ?p = "set_prop p v r"
  have g: "get_prop ?p u = (if key u = key v then r else get_prop p u)" for u
    using False by (simp add: get_prop_set_prop)
  have rr: "get_prop p r = r" using v by (rule root_of_is_root)
  have "get_prop ?p r = r" unfolding g by (simp only: rr if_cancel)
  then have r': "root_of ?p r r" by (rule root_of.root)
  from w show ?thesis
  proof (induction rule: root_of.induct)
    case (root s)
    show ?case
    proof (cases "key s = key v")
      case True
      from True [symmetric] have "get_prop p v = get_prop p s" by (rule get_prop_cong_key)
      then have "get_prop p v = s" by (simp only: root)
      with v have "r = s" using root by (rule root_of_parent_root)
      then show ?thesis using r' by (simp only:)
    next
      case False
      have "get_prop ?p s = get_prop p s" unfolding g using False by (simp only: if_False)
      then have "get_prop ?p s = s" by (simp only: root)
      then show ?thesis by (rule root_of.root)
    qed
  next
    case (step w s)
    show ?case
    proof (cases "key w = key v")
      case True
      have ws: "root_of p w s" using step.hyps by (rule root_of.step)
      from True [symmetric] have "get_prop p v = get_prop p w" by (rule get_prop_cong_key)
      with v ws have rs: "r = s" using step.hyps(1) by (rule root_of_same_parent)
      have wr: "w \<noteq> r"
      proof
        assume "w = r"
        then have "get_prop p w = w" by (simp only: rr)
        with step.hyps(1) show False by (rule notE)
      qed
      have gw: "get_prop ?p w = r" unfolding g using True by simp
      have "get_prop ?p w \<noteq> w" unfolding gw using wr by (rule not_sym)
      moreover have "root_of ?p (get_prop ?p w) r" unfolding gw by (rule r')
      ultimately have "root_of ?p w r" by (rule root_of.step)
      then show ?thesis by (simp only: rs)
    next
      case False
      have e: "get_prop ?p w = get_prop p w" unfolding g using False by (simp only: if_False)
      show ?thesis
      proof (rule root_of.step)
        show "get_prop ?p w \<noteq> w" unfolding e by (rule step.hyps(1))
        show "root_of ?p (get_prop ?p w) s" unfolding e by (rule step.IH)
      qed
    qed
  qed
qed

lemma find_uf_root: "get_prop p r = r \<Longrightarrow> find_uf p r = Some (r, p)"
  by (subst find_uf.simps) simp

lemma find_uf_step:
  "get_prop p v \<noteq> v \<Longrightarrow> find_uf p (get_prop p v) = Some (r, p')
     \<Longrightarrow> find_uf p v = Some (r, set_prop p' v r)"
  by (subst find_uf.simps) simp

text \<open>
  On a value that has a root \<^verbatim>\<open>find\<close> returns it, and every value keeps its
  root in the updated object.
\<close>

lemma find_uf_correct:
  assumes "root_of p v r"
  shows "\<exists>p'. find_uf p v = Some (r, p')
           \<and> (\<forall>w s. root_of p w s \<longrightarrow> root_of p' w s)
           \<and> (plain p \<longrightarrow> plain p')"
  using assms
proof (induction rule: root_of.induct)
  case (root r)
  then show ?case by (auto simp: find_uf_root)
next
  case (step v r)
  then obtain p' where p': "find_uf p (get_prop p v) = Some (r, p')"
    "\<And>w s. root_of p w s \<Longrightarrow> root_of p' w s" "plain p \<Longrightarrow> plain p'" by blast
  have f: "find_uf p v = Some (r, set_prop p' v r)"
    using step.hyps(1) p'(1) by (rule find_uf_step)
  have "root_of p v r" using step.hyps by (rule root_of.step)
  then have vr: "root_of p' v r" by (rule p'(2))
  have 1: "root_of (set_prop p' v r) w s" if "root_of p w s" for w s
    using vr p'(2) [OF that] by (rule compress_root_of)
  have 2: "plain (set_prop p' v r)" if pl: "plain p"
  proof -
    have "get_prop p r = r" using step.hyps(2) by (rule root_of_is_root)
    then have "plain_val r" using pl by (rule root_plain)
    with p'(3) [OF pl] show ?thesis by (rule plain_set_prop)
  qed
  from f 1 2 show ?case by blast
qed


subsection \<open>Union of two roots\<close>

lemma union_root_of:
  assumes ra: "get_prop p ra = ra" and rb: "get_prop p rb = rb" and ne: "ra \<noteq> rb"
    and w: "root_of p w s"
  shows "root_of (set_prop p ra rb) w (if s = ra then rb else s)"
proof -
  let ?p = "set_prop p ra rb"
  have g: "get_prop ?p u = (if key u = key ra then rb else get_prop p u)" for u
    using root_key_not_proto [OF ra] by (simp add: get_prop_set_prop)
  have kab: "key rb \<noteq> key ra" using roots_same_key [OF rb ra] ne by blast
  then have "get_prop ?p rb = get_prop p rb" by (simp add: g)
  then have "get_prop ?p rb = rb" by (simp only: rb)
  then have b': "root_of ?p rb rb" by (rule root_of.root)
  from w show ?thesis
  proof (induction rule: root_of.induct)
    case (root s)
    show ?case
    proof (cases "s = ra")
      case True
      have "get_prop ?p ra \<noteq> ra" using ne by (simp add: g)
      moreover have "root_of ?p (get_prop ?p ra) rb" using b' by (simp add: g)
      ultimately have "root_of ?p ra rb" by (rule root_of.step)
      then show ?thesis by (simp only: True refl if_True)
    next
      case False
      then have "key s \<noteq> key ra" using roots_same_key [OF root ra] by blast
      then have "get_prop ?p s = get_prop p s" by (simp add: g)
      then have "get_prop ?p s = s" by (simp only: root)
      then have "root_of ?p s s" by (rule root_of.root)
      with False show ?thesis by simp
    qed
  next
    case (step w s)
    show ?case
    proof (cases "key w = key ra")
      case True
      then have "get_prop p w = get_prop p ra" by (rule get_prop_cong_key)
      then have "get_prop p w = ra" by (simp only: ra)
      with step.hyps(2) have "root_of p ra s" by simp
      moreover have "root_of p ra ra" using ra by (rule root_of.root)
      ultimately have s: "s = ra" by (rule root_of_det)
      have "w \<noteq> rb" using True kab by blast
      then have "get_prop ?p w \<noteq> w" using True by (simp add: g)
      moreover have "root_of ?p (get_prop ?p w) rb" using True b' by (simp add: g)
      ultimately have "root_of ?p w rb" by (rule root_of.step)
      then show ?thesis by (simp only: s refl if_True)
    next
      case False
      then have e: "get_prop ?p w = get_prop p w" by (simp add: g)
      show ?thesis
      proof (rule root_of.step)
        show "get_prop ?p w \<noteq> w" unfolding e by (rule step.hyps(1))
        show "root_of ?p (get_prop ?p w) (if s = ra then rb else s)"
          unfolding e by (rule step.IH)
      qed
    qed
  qed
qed

lemma union_uf_roots:
  assumes "get_prop p ra = ra" and "get_prop p rb = rb"
  shows "union_uf p ra rb = Some (set_prop p ra rb)"
  by (simp add: union_uf_def find_uf_root assms)


section \<open>Connectivity and acyclic edge sets\<close>

lemma conn_refl [simp]: "(x, x) \<in> conn T"
  by (simp add: conn_def)

lemma conn_sym: "(x, y) \<in> conn T \<Longrightarrow> (y, x) \<in> conn T"
  unfolding conn_def using sym_rtrancl [OF sym_Un_converse] by (rule symD)

lemma conn_trans: "(x, y) \<in> conn T \<Longrightarrow> (y, z) \<in> conn T \<Longrightarrow> (x, z) \<in> conn T"
  unfolding conn_def by (rule rtrancl_trans)

lemma conn_mono: "S \<subseteq> T \<Longrightarrow> conn S \<subseteq> conn T"
  unfolding conn_def by (intro rtrancl_mono Un_mono image_mono converse_mono [THEN iffD2])

lemma conn_monoD: "(x, y) \<in> conn S \<Longrightarrow> S \<subseteq> T \<Longrightarrow> (x, y) \<in> conn T"
  using conn_mono by blast

lemma conn_edge: "e \<in> T \<Longrightarrow> ends e = (a, b) \<Longrightarrow> (a, b) \<in> conn T"
  unfolding conn_def by (rule r_into_rtrancl) force

lemma conn_edge': "e \<in> T \<Longrightarrow> ends e = (a, b) \<Longrightarrow> (b, a) \<in> conn T"
  by (rule conn_sym) (rule conn_edge)

lemma conn_induct [consumes 1, case_names refl edge]:
  assumes "(x, y) \<in> conn T"
    and "P x"
    and "\<And>y z e. (x, y) \<in> conn T \<Longrightarrow> P y \<Longrightarrow> e \<in> T \<Longrightarrow> ends e = (y, z) \<or> ends e = (z, y) \<Longrightarrow> P z"
  shows "P y"
  using assms(1) unfolding conn_def
proof (induction rule: rtrancl_induct)
  case base
  show ?case by (rule assms(2))
next
  case (step y z)
  from step.hyps(2) obtain e where "e \<in> T" "ends e = (y, z) \<or> ends e = (z, y)"
    by auto
  with step.hyps(1) step.IH show ?case
    using assms(3) [of y e z] by (simp add: conn_def)
qed

lemma conn_closed:
  assumes "\<And>e. e \<in> S \<Longrightarrow> ends e \<in> conn T"
  shows "conn S \<subseteq> conn T"
proof
  fix xy assume "xy \<in> conn S"
  then obtain x y where xy: "xy = (x, y)" "(x, y) \<in> conn S" by (cases xy) auto
  from xy(2) have "(x, y) \<in> conn T"
  proof (induction rule: conn_induct)
    case refl
    show ?case by simp
  next
    case (edge y z e)
    from edge.hyps(2) have "ends e \<in> conn T" by (rule assms)
    with edge.hyps(3) have "(y, z) \<in> conn T" by (auto intro: conn_sym)
    with edge.IH show ?case by (rule conn_trans)
  qed
  with xy show "xy \<in> conn T" by simp
qed

lemma conn_insert_iff:
  assumes "ends e = (a, b)"
  shows "(x, y) \<in> conn (insert e T) \<longleftrightarrow>
           (x, y) \<in> conn T
         \<or> (x, a) \<in> conn T \<and> (b, y) \<in> conn T
         \<or> (x, b) \<in> conn T \<and> (a, y) \<in> conn T"
    (is "?L \<longleftrightarrow> ?R x y")
proof
  assume ?L
  then show "?R x y"
  proof (induction rule: conn_induct)
    case refl
    show ?case by simp
  next
    case (edge y z g)
    have st: "(y, z) \<in> conn T \<or> (y = a \<and> z = b) \<or> (y = b \<and> z = a)"
    proof (cases "g = e")
      case True
      with edge.hyps(3) assms show ?thesis by auto
    next
      case False
      with edge.hyps(2) have "g \<in> T" by simp
      with edge.hyps(3) show ?thesis by (auto intro: conn_edge conn_edge')
    qed
    from edge.IH consider (i1) "(x, y) \<in> conn T"
      | (i2) "(x, a) \<in> conn T" "(b, y) \<in> conn T"
      | (i3) "(x, b) \<in> conn T" "(a, y) \<in> conn T" by blast
    then show ?case
    proof cases
      case i1
      from st show ?thesis
      proof (elim disjE conjE)
        assume "(y, z) \<in> conn T"
        with i1 have "(x, z) \<in> conn T" by (rule conn_trans)
        then show ?thesis by simp
      next
        assume "y = a" "z = b"
        with i1 show ?thesis by simp
      next
        assume "y = b" "z = a"
        with i1 show ?thesis by simp
      qed
    next
      case i2
      from st show ?thesis
      proof (elim disjE conjE)
        assume "(y, z) \<in> conn T"
        with i2(2) have "(b, z) \<in> conn T" by (rule conn_trans)
        with i2(1) show ?thesis by simp
      next
        assume "y = a" "z = b"
        with i2 show ?thesis by simp
      next
        assume "y = b" "z = a"
        with i2 show ?thesis by simp
      qed
    next
      case i3
      from st show ?thesis
      proof (elim disjE conjE)
        assume "(y, z) \<in> conn T"
        with i3(2) have "(a, z) \<in> conn T" by (rule conn_trans)
        with i3(1) show ?thesis by simp
      next
        assume "y = a" "z = b"
        with i3 show ?thesis by simp
      next
        assume "y = b" "z = a"
        with i3 show ?thesis by simp
      qed
    qed
  qed
next
  have sub: "conn T \<subseteq> conn (insert e T)" by (rule conn_mono) auto
  have ab: "(a, b) \<in> conn (insert e T)" using assms by (intro conn_edge [of e]) auto
  have ba: "(b, a) \<in> conn (insert e T)" using ab by (rule conn_sym)
  assume "?R x y"
  then show ?L
  proof (elim disjE conjE)
    assume "(x, y) \<in> conn T"
    with sub show ?L by blast
  next
    assume "(x, a) \<in> conn T" "(b, y) \<in> conn T"
    with sub have "(x, a) \<in> conn (insert e T)" "(b, y) \<in> conn (insert e T)" by blast+
    then show ?L using ab by (blast intro: conn_trans [of _ _ "insert e T"])
  next
    assume "(x, b) \<in> conn T" "(a, y) \<in> conn T"
    with sub have "(x, b) \<in> conn (insert e T)" "(a, y) \<in> conn (insert e T)" by blast+
    then show ?L using ba by (blast intro: conn_trans [of _ _ "insert e T"])
  qed
qed

lemma forest_empty [simp]: "forest {}"
  by (simp add: forest_def)

lemma forest_insert:
  assumes f: "forest T" and e: "ends e = (a, b)" and nc: "(a, b) \<notin> conn T"
  shows "forest (insert e T)"
  unfolding forest_def
proof
  fix g assume g: "g \<in> insert e T"
  obtain g1 g2 where eg: "ends g = (g1, g2)" by (cases "ends g") auto
  show "ends g \<notin> conn (insert e T - {g})"
  proof (cases "g = e")
    case True
    have "conn (insert e T - {e}) \<subseteq> conn T" by (rule conn_mono) auto
    with nc e True show ?thesis by auto
  next
    case False
    with g have gT: "g \<in> T" by simp
    have ins: "insert e T - {g} = insert e (T - {g})" using False by auto
    have sub: "conn (T - {g}) \<subseteq> conn T" by (rule conn_mono) auto
    have g12: "(g1, g2) \<in> conn T" "(g2, g1) \<in> conn T"
      using gT eg by (auto intro: conn_edge conn_edge')
    have ng: "(g1, g2) \<notin> conn (T - {g})" using f gT eg by (auto simp: forest_def)
    show ?thesis
    proof
      assume "ends g \<in> conn (insert e T - {g})"
      then have "(g1, g2) \<in> conn (insert e (T - {g}))" by (simp add: ins eg)
      then consider "(g1, g2) \<in> conn (T - {g})"
        | "(g1, a) \<in> conn (T - {g})" "(b, g2) \<in> conn (T - {g})"
        | "(g1, b) \<in> conn (T - {g})" "(a, g2) \<in> conn (T - {g})"
        unfolding conn_insert_iff [OF e] by blast
      then show False
      proof cases
        case 1
        with ng show False by simp
      next
        case 2
        then have "(a, g1) \<in> conn T" "(g2, b) \<in> conn T"
          using sub by (auto intro: conn_sym)
        with g12 have "(a, b) \<in> conn T" by (meson conn_trans)
        with nc show False by simp
      next
        case 3
        then have "(a, g2) \<in> conn T" "(g1, b) \<in> conn T"
          using sub by (auto intro: conn_sym)
        with g12 have "(a, b) \<in> conn T" by (meson conn_trans)
        with nc show False by simp
      qed
    qed
  qed
qed

section \<open>Minimality of the greedy selection\<close>

lemma forest_subset:
  assumes "forest T" "S \<subseteq> T"
  shows "forest S"
  unfolding forest_def
proof
  fix e assume e: "e \<in> S"
  have "conn (S - {e}) \<subseteq> conn (T - {e})" using assms(2) by (intro conn_mono) auto
  moreover have "ends e \<notin> conn (T - {e})" using assms e by (auto simp: forest_def)
  ultimately show "ends e \<notin> conn (S - {e})" by blast
qed

lemma forest_edge_not_conn:
  "forest T \<Longrightarrow> f \<in> T \<Longrightarrow> S \<subseteq> T - {f} \<Longrightarrow> ends f \<notin> conn S"
  using conn_mono [of S "T - {f}"] by (auto simp: forest_def)

lemma conn_first_joining_edge:
  assumes "finite D" "(u, v) \<notin> conn A" "(u, v) \<in> conn (A \<union> D)"
  shows "\<exists>f B. f \<in> D \<and> A \<subseteq> B \<and> B \<subseteq> A \<union> D \<and> f \<notin> B
           \<and> (u, v) \<notin> conn B \<and> (u, v) \<in> conn (insert f B)"
  using assms
proof (induction D rule: finite_induct)
  case empty
  then show ?case by simp
next
  case (insert g D)
  show ?case
  proof (cases "(u, v) \<in> conn (A \<union> D)")
    case True
    with insert.IH insert.prems(1) obtain f B where
      "f \<in> D" "A \<subseteq> B" "B \<subseteq> A \<union> D" "f \<notin> B" "(u, v) \<notin> conn B" "(u, v) \<in> conn (insert f B)"
      by blast
    then show ?thesis by (intro exI [of _ f] exI [of _ B]) auto
  next
    case False
    have eq: "A \<union> insert g D = insert g (A \<union> D)" by simp
    with False insert.prems(2) have "g \<notin> A \<union> D" by (auto simp: insert_absorb)
    with False insert.prems(2) show ?thesis
      by (intro exI [of _ g] exI [of _ "A \<union> D"]) (auto simp: eq)
  qed
qed

lemma forest_exchange_edge:
  assumes f: "forest T" and fin: "finite T" and sub: "A \<subseteq> T"
    and ab: "(a, b) \<in> conn T" and nab: "(a, b) \<notin> conn A"
  shows "\<exists>f. f \<in> T \<and> f \<notin> A \<and> (a, b) \<notin> conn (T - {f})"
proof -
  have "finite (T - A)" using fin by simp
  moreover have "(a, b) \<in> conn (A \<union> (T - A))" using ab sub by (simp add: Un_absorb1)
  ultimately obtain g B where g: "g \<in> T - A" "A \<subseteq> B" "B \<subseteq> A \<union> (T - A)" "g \<notin> B"
    "(a, b) \<notin> conn B" "(a, b) \<in> conn (insert g B)"
    using conn_first_joining_edge [OF _ nab] by blast
  obtain g1 g2 where eg: "ends g = (g1, g2)" by (cases "ends g") auto
  have BT: "B \<subseteq> T - {g}" using g(3,4) sub by auto
  have ng: "(g1, g2) \<notin> conn (T - {g})" using f g(1) eg by (auto simp: forest_def)
  from g(5,6) consider "(a, g1) \<in> conn B" "(g2, b) \<in> conn B"
    | "(a, g2) \<in> conn B" "(g1, b) \<in> conn B"
    unfolding conn_insert_iff [OF eg] by blast
  then have "(a, b) \<notin> conn (T - {g})"
  proof cases
    case 1
    then have 1: "(g1, a) \<in> conn (T - {g})" "(b, g2) \<in> conn (T - {g})"
      using conn_mono [OF BT] by (auto intro: conn_sym)
    show ?thesis
    proof
      assume "(a, b) \<in> conn (T - {g})"
      with 1 have "(g1, g2) \<in> conn (T - {g})" by (meson conn_trans)
      with ng show False by simp
    qed
  next
    case 2
    then have 2: "(g2, a) \<in> conn (T - {g})" "(b, g1) \<in> conn (T - {g})"
      using conn_mono [OF BT] by (auto intro: conn_sym)
    show ?thesis
    proof
      assume "(a, b) \<in> conn (T - {g})"
      with 2 have "(g2, g1) \<in> conn (T - {g})" by (meson conn_trans)
      then have "(g1, g2) \<in> conn (T - {g})" by (rule conn_sym)
      with ng show False by simp
    qed
  qed
  with g(1) show ?thesis by blast
qed

lemma swap_forest:
  assumes "forest T" "ends e = (a, b)" "(a, b) \<notin> conn (T - {f})"
  shows "forest (insert e (T - {f}))"
proof -
  have "forest (T - {f})" using assms(1) by (rule forest_subset) auto
  then show ?thesis using assms(2,3) by (rule forest_insert)
qed

lemma swap_conn:
  assumes fT: "f \<in> T" and e: "ends e = (a, b)"
    and ab: "(a, b) \<in> conn T" and nab: "(a, b) \<notin> conn (T - {f})"
  shows "conn T \<subseteq> conn (insert e (T - {f}))"
proof (rule conn_closed)
  let ?T' = "insert e (T - {f})"
  fix g assume g: "g \<in> T"
  have sub: "conn (T - {f}) \<subseteq> conn ?T'" by (rule conn_mono) auto
  have eab: "(a, b) \<in> conn ?T'" using e by (intro conn_edge [of e]) auto
  then have eba: "(b, a) \<in> conn ?T'" by (rule conn_sym)
  show "ends g \<in> conn ?T'"
  proof (cases "g = f")
    case False
    with g have "g \<in> ?T'" by simp
    then show ?thesis by (cases "ends g") (auto intro: conn_edge)
  next
    case True
    obtain f1 f2 where ef: "ends f = (f1, f2)" by (cases "ends f") auto
    have "(a, b) \<in> conn (insert f (T - {f}))" using ab fT by (simp add: insert_absorb)
    with nab consider "(a, f1) \<in> conn (T - {f})" "(f2, b) \<in> conn (T - {f})"
      | "(a, f2) \<in> conn (T - {f})" "(f1, b) \<in> conn (T - {f})"
      unfolding conn_insert_iff [OF ef] by blast
    then have "(f1, f2) \<in> conn ?T'"
    proof cases
      case 1
      then have "(f1, a) \<in> conn ?T'" "(b, f2) \<in> conn ?T'"
        using sub by (auto intro: conn_sym)
      with eab show ?thesis by (meson conn_trans)
    next
      case 2
      then have "(f1, b) \<in> conn ?T'" "(a, f2) \<in> conn ?T'"
        using sub by (auto intro: conn_sym)
      with eba show ?thesis by (meson conn_trans)
    qed
    with True ef show ?thesis by simp
  qed
qed

lemma improvable_step:
  assumes fin: "finite E" and eE: "e \<in> E" and e: "ends e = (a, b)"
    and nab: "(a, b) \<notin> conn A"
    and le: "\<And>f. f \<in> E \<Longrightarrow> ends f \<notin> conn A \<Longrightarrow> distance e \<le> distance f"
    and imp: "improvable E A"
  shows "improvable E (insert e A)"
  unfolding improvable_def
proof (intro allI impI)
  fix T assume "spanning_forest E T"
  with imp obtain T' where T': "spanning_forest E T'" "A \<subseteq> T'" "sum distance T' \<le> sum distance T"
    unfolding improvable_def by blast
  have T'E: "T' \<subseteq> E" and fT': "forest T'" and sp: "\<And>g. g \<in> E \<Longrightarrow> ends g \<in> conn T'"
    using T'(1) by (auto simp: spanning_forest_def)
  have finT': "finite T'" using T'E fin by (rule finite_subset)
  show "\<exists>T'. spanning_forest E T' \<and> insert e A \<subseteq> T' \<and> sum distance T' \<le> sum distance T"
  proof (cases "e \<in> T'")
    case True
    with T' show ?thesis by blast
  next
    case False
    have ab: "(a, b) \<in> conn T'" using sp [OF eE] e by simp
    from forest_exchange_edge [OF fT' finT' T'(2) ab nab]
    obtain f where f: "f \<in> T'" "f \<notin> A" "(a, b) \<notin> conn (T' - {f})" by blast
    let ?T = "insert e (T' - {f})"
    have "A \<subseteq> T' - {f}" using T'(2) f(2) by auto
    with fT' f(1) have "ends f \<notin> conn A" by (rule forest_edge_not_conn)
    with T'E f(1) have dle: "distance e \<le> distance f" by (intro le) auto
    have 1: "?T \<subseteq> E" using T'E eE by auto
    have 2: "forest ?T" using fT' e f(3) by (rule swap_forest)
    have "conn T' \<subseteq> conn ?T" using f(1) e ab f(3) by (rule swap_conn)
    with sp have 3: "\<forall>g\<in>E. ends g \<in> conn ?T" by blast
    have 4: "insert e A \<subseteq> ?T" using T'(2) f(2) by auto
    have "sum distance ?T = distance e + sum distance (T' - {f})"
      using finT' False by (subst sum.insert) auto
    also have "sum distance (T' - {f}) = sum distance T' - distance f"
      using finT' f(1) by (simp add: sum_diff1)
    finally have "sum distance ?T \<le> sum distance T'" using dle by simp
    with T'(3) have 5: "sum distance ?T \<le> sum distance T" by simp
    from 1 2 3 4 5 show ?thesis
      unfolding spanning_forest_def by blast
  qed
qed

lemma improvable_init: "improvable E {}"
  unfolding improvable_def by blast

lemma kruskal_abs_invariant:
  assumes "sorted (map distance es)" "finite D"
    and "set acc \<subseteq> D" "forest (set acc)" "distinct acc"
    and "\<forall>g\<in>D. ends g \<in> conn (set acc)"
    and "improvable (D \<union> set es) (set acc)"
  shows "set (kruskal_abs es acc) \<subseteq> D \<union> set es
       \<and> forest (set (kruskal_abs es acc))
       \<and> distinct (kruskal_abs es acc)
       \<and> (\<forall>g\<in>D \<union> set es. ends g \<in> conn (set (kruskal_abs es acc)))
       \<and> improvable (D \<union> set es) (set (kruskal_abs es acc))"
  using assms
proof (induction es arbitrary: D acc)
  case Nil
  then show ?case by auto
next
  case (Cons e es)
  let ?E = "D \<union> set (e # es)"
  have E: "insert e D \<union> set es = ?E" by simp
  have srt: "sorted (map distance es)" using Cons.prems(1) by simp
  have fin: "finite (insert e D)" using Cons.prems(2) by simp
  obtain a b where e: "ends e = (a, b)" by (cases "ends e") auto
  show ?case
  proof (cases "ends e \<in> conn (set acc)")
    case True
    have "set (kruskal_abs es acc) \<subseteq> insert e D \<union> set es
       \<and> forest (set (kruskal_abs es acc))
       \<and> distinct (kruskal_abs es acc)
       \<and> (\<forall>g\<in>insert e D \<union> set es. ends g \<in> conn (set (kruskal_abs es acc)))
       \<and> improvable (insert e D \<union> set es) (set (kruskal_abs es acc))"
    proof (rule Cons.IH [OF srt fin])
      show "set acc \<subseteq> insert e D" using Cons.prems(3) by auto
      show "forest (set acc)" by (rule Cons.prems(4))
      show "distinct acc" by (rule Cons.prems(5))
      show "\<forall>g\<in>insert e D. ends g \<in> conn (set acc)" using Cons.prems(6) True by auto
      show "improvable (insert e D \<union> set es) (set acc)" using Cons.prems(7) by (simp only: E)
    qed
    moreover have "kruskal_abs (e # es) acc = kruskal_abs es acc" using True by simp
    ultimately show ?thesis by simp
  next
    case False
    have enot: "e \<notin> set acc"
    proof
      assume "e \<in> set acc"
      then have "ends e \<in> conn (set acc)" using e by (auto intro: conn_edge)
      with False show False by simp
    qed
    have nab: "(a, b) \<notin> conn (set acc)" using False e by simp
    have sub: "conn (set acc) \<subseteq> conn (insert e (set acc))" by (rule conn_mono) auto
    have le: "distance e \<le> distance f" if "f \<in> ?E" "ends f \<notin> conn (set acc)" for f
    proof -
      from that Cons.prems(6) have "f \<in> set (e # es)" by auto
      with Cons.prems(1) show ?thesis by auto
    qed
    have "set (kruskal_abs es (acc @ [e])) \<subseteq> insert e D \<union> set es
       \<and> forest (set (kruskal_abs es (acc @ [e])))
       \<and> distinct (kruskal_abs es (acc @ [e]))
       \<and> (\<forall>g\<in>insert e D \<union> set es. ends g \<in> conn (set (kruskal_abs es (acc @ [e]))))
       \<and> improvable (insert e D \<union> set es) (set (kruskal_abs es (acc @ [e])))"
    proof (rule Cons.IH [OF srt fin])
      show "set (acc @ [e]) \<subseteq> insert e D" using Cons.prems(3) by auto
      show "forest (set (acc @ [e]))"
        using forest_insert [OF Cons.prems(4) e nab] by simp
      show "distinct (acc @ [e])" using Cons.prems(5) enot by simp
      show "\<forall>g\<in>insert e D. ends g \<in> conn (set (acc @ [e]))"
      proof
        fix g assume "g \<in> insert e D"
        then show "ends g \<in> conn (set (acc @ [e]))"
        proof
          assume "g = e"
          then show ?thesis using e by (auto intro: conn_edge)
        next
          assume "g \<in> D"
          with Cons.prems(6) sub show ?thesis by auto
        qed
      qed
      have "improvable ?E (insert e (set acc))"
      proof (rule improvable_step [OF _ _ e nab])
        show "finite ?E" using Cons.prems(2) by simp
        show "e \<in> ?E" by simp
        show "improvable ?E (set acc)" by (rule Cons.prems(7))
        show "distance e \<le> distance f" if "f \<in> ?E" "ends f \<notin> conn (set acc)" for f
          using that by (rule le)
      qed
      then show "improvable (insert e D \<union> set es) (set (acc @ [e]))" by (simp only: E) simp
    qed
    moreover have "kruskal_abs (e # es) acc = kruskal_abs es (acc @ [e])" using False by simp
    ultimately show ?thesis by simp
  qed
qed

lemma spanning_forest_maximal:
  assumes K: "spanning_forest E K" and T: "spanning_forest E T" and sub: "K \<subseteq> T"
  shows "T = K"
proof (rule ccontr)
  assume "T \<noteq> K"
  with sub obtain g where g: "g \<in> T" "g \<notin> K" by blast
  have "g \<in> E" using T g(1) by (auto simp: spanning_forest_def)
  then have "ends g \<in> conn K" using K by (auto simp: spanning_forest_def)
  moreover have "forest T" using T by (simp add: spanning_forest_def)
  then have "ends g \<notin> conn K" using g(1)
    by (rule forest_edge_not_conn) (use sub g(2) in auto)
  ultimately show False by simp
qed

lemma kruskal_abs_correct:
  assumes "sorted (map distance es)"
  shows "spanning_forest (set es) (set (kruskal_abs es []))
       \<and> distinct (kruskal_abs es [])
       \<and> (\<forall>T. spanning_forest (set es) T
             \<longrightarrow> sum distance (set (kruskal_abs es [])) \<le> sum distance T)"
proof -
  let ?K = "kruskal_abs es []"
  have inv: "set ?K \<subseteq> {} \<union> set es \<and> forest (set ?K) \<and> distinct ?K
       \<and> (\<forall>g\<in>{} \<union> set es. ends g \<in> conn (set ?K))
       \<and> improvable ({} \<union> set es) (set ?K)"
    by (rule kruskal_abs_invariant [OF assms]) (simp_all add: improvable_init)
  then have sf: "spanning_forest (set es) (set ?K)"
    by (simp add: spanning_forest_def)
  have "sum distance (set ?K) \<le> sum distance T" if T: "spanning_forest (set es) T" for T
  proof -
    from inv T obtain T' where T': "spanning_forest (set es) T'" "set ?K \<subseteq> T'"
      "sum distance T' \<le> sum distance T"
      unfolding improvable_def by auto
    from sf T'(1,2) have "T' = set ?K" by (rule spanning_forest_maximal)
    with T'(3) show ?thesis by simp
  qed
  with sf inv show ?thesis by blast
qed

section \<open>The selection loop computes the greedy selection\<close>

lemma rep_eq: "root_of p v r \<Longrightarrow> rep p v = r"
  unfolding rep_def by (rule the_equality) (auto intro: root_of_det)

lemma root_of_rep: "uf_inv p \<Longrightarrow> root_of p v (rep p v)"
proof -
  assume "uf_inv p"
  then obtain r where r: "root_of p v r" unfolding uf_inv_def by blast
  then have "rep p v = r" by (rule rep_eq)
  with r show ?thesis by simp
qed

lemma rep_is_root: "uf_inv p \<Longrightarrow> get_prop p (rep p v) = rep p v"
  using root_of_rep [of p v] by (rule root_of_is_root)

lemma find_uf_rep:
  assumes inv: "uf_inv p"
  shows "\<exists>p'. find_uf p v = Some (rep p v, p') \<and> uf_inv p'
           \<and> (\<forall>w. rep p' w = rep p w) \<and> (plain p \<longrightarrow> plain p')"
proof -
  from find_uf_correct [OF root_of_rep [OF inv, of v]] obtain p' where
    f: "find_uf p v = Some (rep p v, p')"
    and k: "\<forall>w s. root_of p w s \<longrightarrow> root_of p' w s"
    and pl: "plain p \<longrightarrow> plain p'" by blast
  have r: "root_of p' w (rep p w)" for w
    using k root_of_rep [OF inv, of w] by blast
  then have "uf_inv p'" unfolding uf_inv_def by blast
  moreover have "rep p' w = rep p w" for w using r [of w] by (rule rep_eq)
  ultimately show ?thesis using f pl by blast
qed

lemma union_uf_rep:
  assumes inv: "uf_inv p" and ra: "get_prop p ra = ra" and rb: "get_prop p rb = rb"
    and ne: "ra \<noteq> rb"
  shows "union_uf p ra rb = Some (set_prop p ra rb)"
    and "uf_inv (set_prop p ra rb)"
    and "\<And>w. rep (set_prop p ra rb) w = (if rep p w = ra then rb else rep p w)"
    and "plain p \<Longrightarrow> plain (set_prop p ra rb)"
proof -
  show "union_uf p ra rb = Some (set_prop p ra rb)"
    using ra rb by (rule union_uf_roots)
  have r: "root_of (set_prop p ra rb) w (if rep p w = ra then rb else rep p w)" for w
    using ra rb ne root_of_rep [OF inv, of w] by (rule union_root_of)
  then show "uf_inv (set_prop p ra rb)" unfolding uf_inv_def by blast
  show "rep (set_prop p ra rb) w = (if rep p w = ra then rb else rep p w)" for w
    using r [of w] by (rule rep_eq)
  show "plain (set_prop p ra rb)" if "plain p"
    using that root_plain [OF rb that] by (rule plain_set_prop)
qed

lemma uf_rel_insert:
  assumes rel: "uf_rel I p A" and e: "ends e = (a, b)" and a: "a \<in> I" and b: "b \<in> I"
    and inv': "uf_inv p'"
    and rep': "\<And>w. rep p' w
                 = (if rep p w = rep p (Str a) then rep p (Str b) else rep p w)"
  shows "uf_rel I p' (insert e A)"
  unfolding uf_rel_def
proof (intro conjI ballI)
  show "uf_inv p'" by (rule inv')
next
  fix i j assume i: "i \<in> I" and j: "j \<in> I"
  have c: "rep p (Str x) = rep p (Str y) \<longleftrightarrow> (x, y) \<in> conn A" if "x \<in> I" "y \<in> I" for x y
    using rel that by (simp add: uf_rel_def)
  have "(i, j) \<in> conn (insert e A) \<longleftrightarrow>
      rep p (Str i) = rep p (Str j)
        \<or> rep p (Str i) = rep p (Str a) \<and> rep p (Str b) = rep p (Str j)
        \<or> rep p (Str i) = rep p (Str b) \<and> rep p (Str a) = rep p (Str j)"
    unfolding conn_insert_iff [OF e] by (simp add: c i j a b)
  also have "\<dots> \<longleftrightarrow> rep p' (Str i) = rep p' (Str j)"
    unfolding rep' by auto
  finally show "rep p' (Str i) = rep p' (Str j) \<longleftrightarrow> (i, j) \<in> conn (insert e A)" by simp
qed

lemma roots_union:
  assumes fin: "finite I" and a: "a \<in> I" and b: "b \<in> I"
    and ne: "rep p (Str a) \<noteq> rep p (Str b)"
    and rep': "\<And>w. rep p' w
                 = (if rep p w = rep p (Str a) then rep p (Str b) else rep p w)"
  shows "card (roots I p') + 1 = card (roots I p)"
proof -
  let ?ra = "rep p (Str a)" and ?rb = "rep p (Str b)"
  have ra: "?ra \<in> roots I p" and rb: "?rb \<in> roots I p"
    using a b by (auto simp: roots_def)
  have "roots I p' = roots I p - {?ra}"
  proof
    show "roots I p' \<subseteq> roots I p - {?ra}"
      using ne rb by (auto simp: roots_def rep')
    show "roots I p - {?ra} \<subseteq> roots I p'"
    proof
      fix x assume "x \<in> roots I p - {?ra}"
      then obtain i where i: "i \<in> I" "x = rep p (Str i)" "x \<noteq> ?ra"
        by (auto simp: roots_def)
      then have "rep p' (Str i) = x" by (simp add: rep')
      with i(1) show "x \<in> roots I p'" by (auto simp: roots_def)
    qed
  qed
  moreover have "finite (roots I p)" using fin by (simp add: roots_def)
  ultimately show ?thesis
    using ra by (simp only: card_Suc_Diff1 Suc_eq_plus1 [symmetric])
qed

lemma select_edges_refines:
  assumes "uf_rel I p (set acc)" "finite I"
    and "\<forall>e\<in>set es. id_pt (from_pt e) \<in> I \<and> id_pt (to_pt e) \<in> I"
  shows "\<exists>p'. select_edges es p acc = Some (p', kruskal_abs es acc)
           \<and> uf_rel I p' (set (kruskal_abs es acc))
           \<and> card (roots I p') + length (kruskal_abs es acc) = card (roots I p) + length acc"
  using assms
proof (induction es arbitrary: p acc)
  case Nil
  then show ?case by simp
next
  case (Cons e es)
  let ?a = "id_pt (from_pt e)" and ?b = "id_pt (to_pt e)"
  have e: "ends e = (?a, ?b)" by (simp add: ends_def)
  have a: "?a \<in> I" and b: "?b \<in> I" using Cons.prems(3) by simp_all
  have es: "\<forall>e\<in>set es. id_pt (from_pt e) \<in> I \<and> id_pt (to_pt e) \<in> I"
    using Cons.prems(3) by simp
  have inv: "uf_inv p" using Cons.prems(1) by (simp add: uf_rel_def)
  from find_uf_rep [OF inv, of "Str ?a"] obtain p1 where p1:
    "find_uf p (Str ?a) = Some (rep p (Str ?a), p1)" "uf_inv p1"
    "\<And>w. rep p1 w = rep p w" by blast
  from find_uf_rep [OF p1(2), of "Str ?b"] obtain p2 where p2:
    "find_uf p1 (Str ?b) = Some (rep p1 (Str ?b), p2)" "uf_inv p2"
    "\<And>w. rep p2 w = rep p1 w" by blast
  have rep2: "rep p2 w = rep p w" for w by (simp add: p1(3) p2(3))
  have rts2: "roots I p2 = roots I p" by (simp add: roots_def rep2)
  have rel2: "uf_rel I p2 (set acc)"
    using Cons.prems(1) p2(2) by (simp add: uf_rel_def rep2)
  have cn: "ends e \<in> conn (set acc) \<longleftrightarrow> rep p (Str ?a) = rep p (Str ?b)"
    using Cons.prems(1) a b by (simp add: uf_rel_def e)
  show ?case
  proof (cases "rep p (Str ?a) = rep p (Str ?b)")
    case True
    from Cons.IH [OF rel2 Cons.prems(2) es] obtain p' where
      "select_edges es p2 acc = Some (p', kruskal_abs es acc)"
      "uf_rel I p' (set (kruskal_abs es acc))"
      "card (roots I p') + length (kruskal_abs es acc) = card (roots I p2) + length acc"
      by blast
    moreover have "select_edges (e # es) p acc = select_edges es p2 acc"
      using True by (simp add: p1(1) p2(1) p1(3))
    moreover have "kruskal_abs (e # es) acc = kruskal_abs es acc"
      using True cn by simp
    ultimately show ?thesis by (simp add: rts2)
  next
    case False
    let ?ra = "rep p (Str ?a)" and ?rb = "rep p (Str ?b)"
    let ?p3 = "set_prop p2 ?ra ?rb"
    have ra: "get_prop p2 ?ra = ?ra" and rb: "get_prop p2 ?rb = ?rb"
      using rep_is_root [OF p2(2), of "Str ?a"] rep_is_root [OF p2(2), of "Str ?b"]
      by (simp_all only: rep2)
    note u = union_uf_rep [OF p2(2) ra rb False]
    have rep3: "rep ?p3 w = (if rep p w = ?ra then ?rb else rep p w)" for w
      using u(3) [of w] by (simp only: rep2)
    have rel3: "uf_rel I ?p3 (set (acc @ [e]))"
    proof -
      have "uf_rel I ?p3 (insert e (set acc))"
        using Cons.prems(1) e a b u(2) rep3 by (rule uf_rel_insert)
      then show ?thesis by simp
    qed
    from Cons.IH [OF rel3 Cons.prems(2) es] obtain p' where p':
      "select_edges es ?p3 (acc @ [e]) = Some (p', kruskal_abs es (acc @ [e]))"
      "uf_rel I p' (set (kruskal_abs es (acc @ [e])))"
      "card (roots I p') + length (kruskal_abs es (acc @ [e]))
         = card (roots I ?p3) + length (acc @ [e])"
      by blast
    have sel: "select_edges (e # es) p acc = select_edges es ?p3 (acc @ [e])"
      using False by (simp add: p1(1) p2(1) p1(3) u(1))
    have kr: "kruskal_abs (e # es) acc = kruskal_abs es (acc @ [e])"
      using False cn by simp
    have "card (roots I ?p3) + 1 = card (roots I p)"
      using Cons.prems(2) a b False rep3 by (rule roots_union)
    with p'(3) have "card (roots I p') + length (kruskal_abs es (acc @ [e]))
        = card (roots I p) + length acc"
      by simp
    with p'(1,2) sel kr show ?thesis by simp
  qed
qed

text \<open>
  The loop returns on every forest, whatever the edges, keeps the parent object
  a forest and its own properties plain.
\<close>

lemma select_edges_total:
  assumes "uf_inv p"
  shows "\<exists>p' mst. select_edges es p acc = Some (p', mst) \<and> uf_inv p'
           \<and> (plain p \<longrightarrow> plain p')"
  using assms
proof (induction es arbitrary: p acc)
  case Nil
  then show ?case by simp
next
  case (Cons e es)
  let ?a = "Str (id_pt (from_pt e))" and ?b = "Str (id_pt (to_pt e))"
  from find_uf_rep [OF Cons.prems, of ?a] obtain p1 where p1:
    "find_uf p ?a = Some (rep p ?a, p1)" "uf_inv p1" "plain p \<longrightarrow> plain p1" by blast
  from find_uf_rep [OF p1(2), of ?b] obtain p2 where p2:
    "find_uf p1 ?b = Some (rep p1 ?b, p2)" "uf_inv p2" "plain p1 \<longrightarrow> plain p2" by blast
  show ?case
  proof (cases "rep p ?a = rep p1 ?b")
    case True
    from Cons.IH [OF p2(2), of acc] obtain p' mst where
      "select_edges es p2 acc = Some (p', mst)" "uf_inv p'" "plain p2 \<longrightarrow> plain p'" by blast
    moreover have "select_edges (e # es) p acc = select_edges es p2 acc"
      using True by (simp add: p1(1) p2(1))
    ultimately show ?thesis using p1(3) p2(3) by auto
  next
    case False
    let ?p3 = "set_prop p2 (rep p ?a) (rep p1 ?b)"
    have "get_prop p1 (rep p ?a) = rep p ?a"
      using find_uf_rep [OF Cons.prems, of ?a] p1(1) rep_is_root [OF p1(2), of ?a] by auto
    then have "root_of p1 (rep p ?a) (rep p ?a)" by (rule root_of.root)
    then have "rep p1 (rep p ?a) = rep p ?a" by (rule rep_eq)
    moreover have "rep p2 (rep p ?a) = rep p1 (rep p ?a)"
      using find_uf_rep [OF p1(2), of ?b] p2(1) by auto
    ultimately have ra: "get_prop p2 (rep p ?a) = rep p ?a"
      using rep_is_root [OF p2(2), of "rep p ?a"] by simp
    have "rep p2 ?b = rep p1 ?b"
      using find_uf_rep [OF p1(2), of ?b] p2(1) by auto
    then have rb: "get_prop p2 (rep p1 ?b) = rep p1 ?b"
      using rep_is_root [OF p2(2), of ?b] by simp
    note u = union_uf_rep [OF p2(2) ra rb False]
    from Cons.IH [OF u(2), of "acc @ [e]"] obtain p' mst where
      "select_edges es ?p3 (acc @ [e]) = Some (p', mst)" "uf_inv p'"
      "plain ?p3 \<longrightarrow> plain p'" by blast
    moreover have "select_edges (e # es) p acc = select_edges es ?p3 (acc @ [e])"
      using False by (simp add: p1(1) p2(1) u(1))
    ultimately show ?thesis using p1(3) p2(3) u(4) by auto
  qed
qed



section \<open>Properties of the builder\<close>

lemma conn_empty: "(i, j) \<in> conn {} \<longleftrightarrow> i = j"
  by (simp add: conn_def)

subsection \<open>The initial parent object\<close>

lemma init_parent_aux:
  "foldl (\<lambda>parent n. set_prop parent (Str (id_pt n)) (Str (id_pt n))) m nodes k
     = (if k \<in> ids nodes \<and> k \<noteq> ''__proto__'' then Some (Str k) else m k)"
  by (induction nodes arbitrary: m) (auto simp: set_prop_def)

lemma init_parent_apply:
  "init_parent nodes k
     = (if k \<in> ids nodes \<and> k \<noteq> ''__proto__'' then Some (Str k) else None)"
  by (simp add: init_parent_def init_parent_aux)

lemma plain_init_parent: "plain (init_parent nodes)"
  by (auto simp: plain_def plain_val_def init_parent_apply split: if_splits)

lemma init_get_own:
  "k \<in> ids nodes \<Longrightarrow> k \<noteq> ''__proto__'' \<Longrightarrow> key v = k
     \<Longrightarrow> get_prop (init_parent nodes) v = Str k"
  by (simp add: get_prop_def init_parent_apply)

lemma init_get_absent:
  "key v \<notin> ids nodes \<Longrightarrow> key v \<noteq> ''__proto__''
     \<Longrightarrow> get_prop (init_parent nodes) v
           = (if key v \<in> set inherited_names then Inherited (key v) else Undefined)"
  by (simp add: get_prop_def init_parent_apply)

lemma init_root_own:
  assumes "k \<in> ids nodes" "k \<noteq> ''__proto__''"
  shows "root_of (init_parent nodes) (Str k) (Str k)"
  by (rule root_of.root) (simp add: init_get_own assms)

lemma root_of_via:
  assumes "get_prop p v = w" "root_of p w r"
  shows "\<exists>r. root_of p v r"
proof (cases "w = v")
  case True
  with assms(2) show ?thesis by blast
next
  case False
  have "root_of p v r"
  proof (rule root_of.step)
    show "get_prop p v \<noteq> v" using False assms(1) by simp
    show "root_of p (get_prop p v) r" using assms by simp
  qed
  then show ?thesis ..
qed

text \<open>
  In the initial object every value has a root: an id other than \<^verbatim>\<open>__proto__\<close> is
  its own root, an absent key leads to \<^verbatim>\<open>undefined\<close> (an inherited name through
  its function), and \<^verbatim>\<open>__proto__\<close> leads to \<^verbatim>\<open>Object.prototype\<close>.
\<close>

lemma init_root_keyed:
  assumes "key v \<in> ids nodes" "key v \<noteq> ''__proto__''"
  shows "\<exists>r. root_of (init_parent nodes) v r"
  using init_get_own [OF assms refl] init_root_own [OF assms] by (rule root_of_via)

lemma init_root_Undefined: "\<exists>r. root_of (init_parent nodes) Undefined r"
proof (cases "''undefined'' \<in> ids nodes")
  case True
  then show ?thesis using init_root_keyed [of Undefined nodes] by simp
next
  case False
  then have "get_prop (init_parent nodes) Undefined = Undefined"
    using init_get_absent [of Undefined nodes] by (simp add: inherited_names_def)
  then have "root_of (init_parent nodes) Undefined Undefined" by (rule root_of.root)
  then show ?thesis ..
qed

lemma init_root_not_inherited:
  assumes "key v \<noteq> ''__proto__''" "key v \<notin> set inherited_names"
  shows "\<exists>r. root_of (init_parent nodes) v r"
proof (cases "key v \<in> ids nodes")
  case True
  then show ?thesis using assms(1) by (rule init_root_keyed)
next
  case False
  then have g: "get_prop (init_parent nodes) v = Undefined"
    using assms by (simp add: init_get_absent)
  from init_root_Undefined obtain r where "root_of (init_parent nodes) Undefined r" ..
  with g show ?thesis by (rule root_of_via)
qed

lemma init_root_not_proto:
  assumes "key v \<noteq> ''__proto__''"
  shows "\<exists>r. root_of (init_parent nodes) v r"
proof (cases "key v \<in> set inherited_names \<and> key v \<notin> ids nodes")
  case False
  then consider "key v \<notin> set inherited_names" | "key v \<in> ids nodes" by blast
  then show ?thesis
  proof cases
    case 1
    with assms show ?thesis by (rule init_root_not_inherited)
  next
    case 2
    then show ?thesis using assms by (rule init_root_keyed)
  qed
next
  case True
  then have g: "get_prop (init_parent nodes) v = Inherited (key v)"
    using assms by (simp add: init_get_absent)
  have "key (Inherited (key v)) \<noteq> ''__proto__''" by (simp add: key_proto_iff)
  then obtain r where "root_of (init_parent nodes) (Inherited (key v)) r"
    using init_root_not_inherited [OF _ key_Inherited_not_inherited] by blast
  with g show ?thesis by (rule root_of_via)
qed

lemma init_parent_inv: "uf_inv (init_parent nodes)"
  unfolding uf_inv_def
proof
  fix v
  show "\<exists>r. root_of (init_parent nodes) v r"
  proof (cases "key v = ''__proto__''")
    case False
    then show ?thesis by (rule init_root_not_proto)
  next
    case True
    then have g: "get_prop (init_parent nodes) v = ObjectPrototype"
      by (simp add: get_prop_def)
    have "key ObjectPrototype \<noteq> ''__proto__''" by simp
    then obtain r where "root_of (init_parent nodes) ObjectPrototype r"
      using init_root_not_proto by blast
    with g show ?thesis by (rule root_of_via)
  qed
qed

text \<open>
  On ordinary ids the initial representatives are pairwise different: an id is
  its own representative, and \<^verbatim>\<open>__proto__\<close> is represented by \<^verbatim>\<open>undefined\<close>.
\<close>

lemma init_parent_rep:
  assumes "i \<in> ids nodes" "i \<noteq> ''__proto__''"
  shows "rep (init_parent nodes) (Str i) = Str i"
  using init_root_own [OF assms] by (rule rep_eq)

lemma init_parent_rep_proto:
  assumes o: "''[object Object]'' \<notin> ids nodes" "''undefined'' \<notin> ids nodes"
  shows "rep (init_parent nodes) (Str ''__proto__'') = Undefined"
proof (rule rep_eq)
  let ?p = "init_parent nodes"
  have u: "get_prop ?p Undefined = Undefined"
    using init_get_absent [of Undefined nodes] o(2) by (simp add: inherited_names_def)
  have op: "get_prop ?p ObjectPrototype = Undefined"
    using init_get_absent [of ObjectPrototype nodes] o(1) by (simp add: inherited_names_def)
  have pr: "get_prop ?p (Str ''__proto__'') = ObjectPrototype"
    by (simp add: get_prop_def)
  have "root_of ?p Undefined Undefined" using u by (rule root_of.root)
  then have "root_of ?p (get_prop ?p ObjectPrototype) Undefined" by (simp only: op)
  moreover have "get_prop ?p ObjectPrototype \<noteq> ObjectPrototype" by (simp add: op)
  ultimately have "root_of ?p ObjectPrototype Undefined" by (rule root_of.step [rotated])
  then have "root_of ?p (get_prop ?p (Str ''__proto__'')) Undefined" by (simp only: pr)
  moreover have "get_prop ?p (Str ''__proto__'') \<noteq> Str ''__proto__''" by (simp add: pr)
  ultimately show "root_of ?p (Str ''__proto__'') Undefined" by (rule root_of.step [rotated])
qed

lemma init_parent_rep_inj:
  assumes o: "ordinary_ids (ids nodes)" and i: "i \<in> ids nodes" and j: "j \<in> ids nodes"
  shows "rep (init_parent nodes) (Str i) = rep (init_parent nodes) (Str j) \<longleftrightarrow> i = j"
proof (cases "i = ''__proto__''")
  case True
  with o i have r: "rep (init_parent nodes) (Str i) = Undefined"
    by (simp add: ordinary_ids_def init_parent_rep_proto)
  show ?thesis
  proof (cases "j = ''__proto__''")
    case True
    with \<open>i = ''__proto__''\<close> show ?thesis by simp
  next
    case False
    with j r True show ?thesis by (simp add: init_parent_rep)
  qed
next
  case False
  show ?thesis
  proof (cases "j = ''__proto__''")
    case True
    with o j have "rep (init_parent nodes) (Str j) = Undefined"
      by (simp add: ordinary_ids_def init_parent_rep_proto)
    with i False True show ?thesis by (simp add: init_parent_rep)
  next
    case jf: False
    with i j False show ?thesis by (simp add: init_parent_rep)
  qed
qed

lemma init_parent_rel:
  "ordinary_ids (ids nodes) \<Longrightarrow> uf_rel (ids nodes) (init_parent nodes) {}"
  by (simp add: uf_rel_def init_parent_inv init_parent_rep_inj conn_empty)

lemma roots_init_parent:
  assumes "ordinary_ids (ids nodes)"
  shows "card (roots (ids nodes) (init_parent nodes)) = card (ids nodes)"
  unfolding roots_def
  by (rule card_image) (auto simp: inj_on_def init_parent_rep_inj [OF assms])

subsection \<open>The builder\<close>

lemma ends_mk_edge [simp]: "ends (mk_edge p q) = (id_pt p, id_pt q)"
  by (simp add: ends_def mk_edge_def)

lemma edges_ends_in:
  "e \<in> set (edges nodes) \<Longrightarrow> id_pt (from_pt e) \<in> ids nodes \<and> id_pt (to_pt e) \<in> ids nodes"
  by (auto dest!: in_edges_mk simp: mk_edge_def)

lemma set_sorted_edges [simp]: "set (sorted_edges nodes) = set (edges nodes)"
  by (simp add: sorted_edges_def)

lemma sorted_sorted_edges: "sorted (map distance (sorted_edges nodes))"
  by (simp add: sorted_edges_def)

lemma edges_complete:
  "u \<in> set nodes \<Longrightarrow> v \<in> set nodes \<Longrightarrow> u \<noteq> v
     \<Longrightarrow> mk_edge u v \<in> set (edges nodes) \<or> mk_edge v u \<in> set (edges nodes)"
  by (induction nodes) (auto simp: edges_Cons)

lemma spanning_tree_iff: "spanning_tree nodes T \<longleftrightarrow> spanning_forest (set (edges nodes)) T"
proof -
  have "(\<forall>u\<in>set nodes. \<forall>v\<in>set nodes. (id_pt u, id_pt v) \<in> conn T)
      \<longleftrightarrow> (\<forall>g\<in>set (edges nodes). ends g \<in> conn T)" (is "?A \<longleftrightarrow> ?B")
  proof
    assume ?A
    then show ?B by (auto dest!: in_edges_mk)
  next
    assume b: ?B
    show ?A
    proof (intro ballI)
      fix u v assume uv: "u \<in> set nodes" "v \<in> set nodes"
      show "(id_pt u, id_pt v) \<in> conn T"
      proof (cases "u = v")
        case True
        then show ?thesis by simp
      next
        case False
        from edges_complete [OF uv False] show ?thesis
        proof
          assume "mk_edge u v \<in> set (edges nodes)"
          with b have "ends (mk_edge u v) \<in> conn T" by blast
          then show ?thesis by simp
        next
          assume "mk_edge v u \<in> set (edges nodes)"
          with b have "ends (mk_edge v u) \<in> conn T" by blast
          then show ?thesis by (simp add: conn_sym)
        qed
      qed
    qed
  qed
  then show ?thesis by (simp add: spanning_tree_def spanning_forest_def)
qed

lemma select_edges_kruskal:
  assumes "ordinary_ids (ids nodes)" and "set es \<subseteq> set (edges nodes)"
  shows "\<exists>p'. select_edges es (init_parent nodes) [] = Some (p', kruskal_abs es [])
           \<and> uf_rel (ids nodes) p' (set (kruskal_abs es []))
           \<and> card (roots (ids nodes) p') + length (kruskal_abs es []) = card (ids nodes)"
proof -
  have "\<forall>e\<in>set es. id_pt (from_pt e) \<in> ids nodes \<and> id_pt (to_pt e) \<in> ids nodes"
    using assms(2) edges_ends_in by blast
  from select_edges_refines [of "ids nodes" "init_parent nodes" "[]", OF _ _ this]
  show ?thesis using assms(1) by (simp add: init_parent_rel roots_init_parent)
qed

lemma bmst_kruskal:
  assumes "ordinary_ids (ids nodes)"
  shows "buildMinimumSpanningTree nodes = Some (kruskal_abs (sorted_edges nodes) [])"
proof -
  from select_edges_kruskal [OF assms, of "sorted_edges nodes"] obtain p' where
    "select_edges (sorted_edges nodes) (init_parent nodes) []
       = Some (p', kruskal_abs (sorted_edges nodes) [])" by auto
  then show ?thesis by (simp add: buildMinimumSpanningTree_def)
qed

text \<open>The builder returns on every input, and its result follows the sorted list.\<close>

lemma bmst_total: "\<exists>mst. buildMinimumSpanningTree nodes = Some mst"
proof -
  from select_edges_total [OF init_parent_inv, of "sorted_edges nodes" nodes "[]"]
  obtain p' mst where "select_edges (sorted_edges nodes) (init_parent nodes) [] = Some (p', mst)"
    by blast
  then show ?thesis by (simp add: buildMinimumSpanningTree_def)
qed

text \<open>
  Every own property of the parent object holds a string or \<^verbatim>\<open>undefined\<close>, at every
  stage of the loop, and so does every root that \<^verbatim>\<open>find\<close> returns: these are the
  only values the builder writes.
\<close>

lemma select_edges_plain:
  assumes "select_edges es (init_parent nodes) [] = Some (p, mst)"
  shows "plain p \<and> (\<forall>v. plain_val (rep p v))"
proof -
  from select_edges_total [OF init_parent_inv, of es nodes "[]"] assms
  have inv: "uf_inv p" and pl: "plain p"
    using plain_init_parent by auto
  have "plain_val (rep p v)" for v
    using rep_is_root [OF inv, of v] pl by (rule root_plain)
  with pl show ?thesis by blast
qed


lemma kruskal_spanning_tree:
  "spanning_tree nodes (set (kruskal_abs (sorted_edges nodes) []))"
  "distinct (kruskal_abs (sorted_edges nodes) [])"
  "spanning_tree nodes T \<Longrightarrow>
     sum distance (set (kruskal_abs (sorted_edges nodes) [])) \<le> sum distance T"
  using kruskal_abs_correct [OF sorted_sorted_edges, of nodes]
  by (simp_all add: spanning_tree_iff)

lemma kruskal_length:
  assumes o: "ordinary_ids (ids nodes)"
  shows "length (kruskal_abs (sorted_edges nodes) []) = card (ids nodes) - 1"
proof (cases "nodes = []")
  case True
  then show ?thesis by (simp add: sorted_edges_def)
next
  case False
  let ?K = "kruskal_abs (sorted_edges nodes) []"
  from select_edges_kruskal [OF o, of "sorted_edges nodes"] obtain p' where
    rel: "uf_rel (ids nodes) p' (set ?K)"
    and cnt: "card (roots (ids nodes) p') + length ?K = card (ids nodes)" by auto
  have all: "(i, j) \<in> conn (set ?K)" if "i \<in> ids nodes" "j \<in> ids nodes" for i j
    using kruskal_spanning_tree(1) [of nodes] that by (auto simp: spanning_tree_def)
  have same: "rep p' (Str i) = rep p' (Str j)" if "i \<in> ids nodes" "j \<in> ids nodes" for i j
    using rel that all by (auto simp: uf_rel_def)
  from False obtain i where i: "i \<in> ids nodes" by (cases nodes) auto
  have "roots (ids nodes) p' = {rep p' (Str i)}"
  proof
    show "roots (ids nodes) p' \<subseteq> {rep p' (Str i)}"
      using same [OF _ i] by (auto simp: roots_def)
    show "{rep p' (Str i)} \<subseteq> roots (ids nodes) p'"
      using i by (auto simp: roots_def)
  qed
  with cnt show ?thesis by simp
qed

section \<open>Order of acceptance and components\<close>

lemma kruskal_abs_append: "\<exists>ys. kruskal_abs es acc = acc @ ys \<and> subseq ys es"
proof (induction es arbitrary: acc)
  case Nil
  show ?case by simp
next
  case (Cons e es)
  show ?case
  proof (cases "ends e \<in> conn (set acc)")
    case True
    from Cons.IH [of acc] obtain ys where "kruskal_abs es acc = acc @ ys" "subseq ys es" by blast
    with True show ?thesis by (intro exI [of _ ys]) (simp add: list_emb_Cons)
  next
    case False
    from Cons.IH [of "acc @ [e]"] obtain ys where
      "kruskal_abs es (acc @ [e]) = (acc @ [e]) @ ys" "subseq ys es" by blast
    with False show ?thesis by (intro exI [of _ "e # ys"]) simp
  qed
qed

lemma kruskal_abs_subseq: "subseq (kruskal_abs es []) es"
  using kruskal_abs_append [of es "[]"] by auto

lemma fresh_edges_Nil [simp]: "fresh_edges []"
  by (simp add: fresh_edges_def)

lemma fresh_edges_snoc:
  assumes "fresh_edges acc" "ends e \<notin> conn (set acc)"
  shows "fresh_edges (acc @ [e])"
  unfolding fresh_edges_def
proof (intro allI impI)
  fix k assume "k < length (acc @ [e])"
  then consider "k < length acc" | "k = length acc" by fastforce
  then show "ends ((acc @ [e]) ! k) \<notin> conn (set (take k (acc @ [e])))"
  proof cases
    case 1
    with assms(1) show ?thesis by (simp add: fresh_edges_def nth_append)
  next
    case 2
    with assms(2) show ?thesis by simp
  qed
qed

lemma kruskal_abs_fresh: "fresh_edges acc \<Longrightarrow> fresh_edges (kruskal_abs es acc)"
  by (induction es arbitrary: acc) (simp_all add: fresh_edges_snoc)

lemma conn_stays_in:
  assumes "(x, y) \<in> conn T" "x \<in> I"
    and "\<And>e. e \<in> T \<Longrightarrow> fst (ends e) \<in> I \<and> snd (ends e) \<in> I"
  shows "y \<in> I"
  using assms(1)
proof (induction rule: conn_induct)
  case refl
  show ?case by (rule assms(2))
next
  case (edge y z e)
  from assms(3) [OF edge.hyps(2)] edge.hyps(3) show ?case by auto
qed

lemma one_component:
  assumes ne: "I \<noteq> {}"
    and all: "\<And>i j. i \<in> I \<Longrightarrow> j \<in> I \<Longrightarrow> (i, j) \<in> conn T"
    and ins: "\<And>e. e \<in> T \<Longrightarrow> fst (ends e) \<in> I \<and> snd (ends e) \<in> I"
  shows "I // conn T = {I}"
proof -
  have "conn T `` {i} = I" if "i \<in> I" for i
  proof
    show "conn T `` {i} \<subseteq> I" using conn_stays_in [OF _ that ins] by auto
    show "I \<subseteq> conn T `` {i}" using all [OF that] by auto
  qed
  then show ?thesis using ne by (auto simp: quotient_def)
qed

section \<open>The square layout\<close>

lemma atan2_sqrt_strict_mono:
  assumes "0 \<le> x" "x < y" "y \<le> 1"
  shows "atan2 (sqrt x) (sqrt (1 - x)) < atan2 (sqrt y) (sqrt (1 - y))"
proof -
  have px: "0 < sqrt (1 - x)" using assms by simp
  then have l: "atan2 (sqrt x) (sqrt (1 - x)) = arctan (sqrt x / sqrt (1 - x))"
    by (simp add: atan2_def del: real_sqrt_gt_0_iff)
  show ?thesis
  proof (cases "y = 1")
    case True
    then have "atan2 (sqrt y) (sqrt (1 - y)) = pi / 2" by (simp add: atan2_def)
    with l arctan_ubound [of "sqrt x / sqrt (1 - x)"] show ?thesis by simp
  next
    case False
    with assms have py: "0 < sqrt (1 - y)" by simp
    then have r: "atan2 (sqrt y) (sqrt (1 - y)) = arctan (sqrt y / sqrt (1 - y))"
      by (simp add: atan2_def del: real_sqrt_gt_0_iff)
    have "sqrt (1 - y) \<le> sqrt (1 - x)" using assms by simp
    then have "sqrt x / sqrt (1 - x) \<le> sqrt x / sqrt (1 - y)"
      using py assms(1) by (intro divide_left_mono) (auto simp del: real_sqrt_gt_0_iff real_sqrt_le_iff)
    also have "\<dots> < sqrt y / sqrt (1 - y)"
      using py assms by (intro divide_strict_right_mono) auto
    finally show ?thesis unfolding l r by (simp only: arctan_less_iff)
  qed
qed

lemma haversineDistance_less:
  assumes "aVal a b < aVal c d"
  shows "haversineDistance a b < haversineDistance c d"
  using atan2_sqrt_strict_mono [OF aVal_nonneg assms aVal_le_1]
  by (simp add: haversineDistance_def R_def)

lemma haversineDistance_cong:
  "aVal a b = aVal c d \<Longrightarrow> haversineDistance a b = haversineDistance c d"
  by (simp add: haversineDistance_def)

lemmas sq_defs = sqA_def sqB_def sqC_def sqD_def pt_def

lemma sin_half_degree_pos: "0 < sin (pi / 360)"
  by (rule sin_gt_zero) (simp_all add: pi_gt_zero)

lemma cos_degree_pos: "0 < cos (pi / 180)"
  by (rule cos_gt_zero) (simp_all add: pi_gt_zero)

lemma cos_degree_less_1: "cos (pi / 180) < 1"
  using cos_monotone_0_pi [of 0 "pi / 180"] by (simp add: pi_gt_zero)

lemma aVal_square:
  "aVal sqA sqB = (sin (pi / 360))\<^sup>2"
  "aVal sqA sqD = (sin (pi / 360))\<^sup>2"
  "aVal sqB sqC = (sin (pi / 360))\<^sup>2"
  "aVal sqC sqD = (sin (pi / 360))\<^sup>2 * (cos (pi / 180))\<^sup>2"
  "aVal sqA sqC = (sin (pi / 360))\<^sup>2 * (1 + cos (pi / 180))"
  "aVal sqB sqD = (sin (pi / 360))\<^sup>2 * (1 + cos (pi / 180))"
  by (simp_all add: aVal_def sq_defs toRad_def power2_eq_square algebra_simps)

lemma square_distances:
  "haversineDistance sqC sqD < haversineDistance sqA sqB"
  "haversineDistance sqA sqD = haversineDistance sqA sqB"
  "haversineDistance sqB sqC = haversineDistance sqA sqB"
  "haversineDistance sqA sqB < haversineDistance sqA sqC"
  "haversineDistance sqB sqD = haversineDistance sqA sqC"
proof -
  let ?s = "sin (pi / 360)" and ?c = "cos (pi / 180)"
  have s2: "0 < ?s\<^sup>2" using sin_half_degree_pos by simp
  have "\<bar>?c\<bar> < 1" using cos_degree_pos cos_degree_less_1 by simp
  then have "?c\<^sup>2 < 1" by (simp only: abs_square_less_1)
  then have "?s\<^sup>2 * ?c\<^sup>2 < ?s\<^sup>2 * 1" using s2 by (intro mult_strict_left_mono)
  then show "haversineDistance sqC sqD < haversineDistance sqA sqB"
    by (intro haversineDistance_less) (simp add: aVal_square)
  have "?s\<^sup>2 * 1 < ?s\<^sup>2 * (1 + ?c)" using s2 cos_degree_pos by (intro mult_strict_left_mono) auto
  then show "haversineDistance sqA sqB < haversineDistance sqA sqC"
    by (intro haversineDistance_less) (simp add: aVal_square)
  show "haversineDistance sqA sqD = haversineDistance sqA sqB"
    "haversineDistance sqB sqC = haversineDistance sqA sqB"
    "haversineDistance sqB sqD = haversineDistance sqA sqC"
    by (rule haversineDistance_cong, simp add: aVal_square)+
qed

lemma square_distance_simps:
  "distance (mk_edge sqA sqD) = distance (mk_edge sqA sqB)"
  "distance (mk_edge sqB sqC) = distance (mk_edge sqA sqB)"
  "distance (mk_edge sqB sqD) = distance (mk_edge sqA sqC)"
  "distance (mk_edge sqC sqD) < distance (mk_edge sqA sqB)"
  "distance (mk_edge sqA sqB) < distance (mk_edge sqA sqC)"
  using square_distances by (simp_all add: mk_edge_def)

lemma sorted_edges_square:
  "sorted_edges square = [mk_edge sqC sqD, mk_edge sqA sqB, mk_edge sqA sqD,
                          mk_edge sqB sqC, mk_edge sqA sqC, mk_edge sqB sqD]"
  using square_distance_simps(4,5)
  by (simp add: sorted_edges_def edges_square square_distance_simps(1,2,3))

lemma conn_insert_simp:
  "(x, y) \<in> conn (insert e T) \<longleftrightarrow>
     (x, y) \<in> conn T
   \<or> (x, fst (ends e)) \<in> conn T \<and> (snd (ends e), y) \<in> conn T
   \<or> (x, snd (ends e)) \<in> conn T \<and> (fst (ends e), y) \<in> conn T"
  by (rule conn_insert_iff) simp

lemma id_square [simp]:
  "id_pt sqA = ''A''" "id_pt sqB = ''B''" "id_pt sqC = ''C''" "id_pt sqD = ''D''"
  by (simp_all add: sq_defs)

lemma kruskal_square:
  "kruskal_abs (sorted_edges square) [] = [mk_edge sqC sqD, mk_edge sqA sqB, mk_edge sqA sqD]"
  by (simp add: sorted_edges_square conn_insert_simp conn_empty)

lemma ordinary_square: "ordinary_ids (ids square)"
  by (simp add: ordinary_ids_def square_def)

lemma bmst_square:
  "buildMinimumSpanningTree square = Some [mk_edge sqC sqD, mk_edge sqA sqB, mk_edge sqA sqD]"
  by (simp add: bmst_kruskal [OF ordinary_square] kruskal_square)

section \<open>Auxiliary facts for the claims\<close>

lemma card_ids: "distinct (map id_pt nodes) \<Longrightarrow> card (ids nodes) = length nodes"
  using distinct_card [of "map id_pt nodes"] by simp

lemma total_distance_distinct: "distinct mst \<Longrightarrow> total_distance mst = sum distance (set mst)"
  by (simp add: total_distance_def sum_list_distinct_conv_sum_set)



lemma square_points_distinct:
  "sqA \<noteq> sqB" "sqA \<noteq> sqC" "sqA \<noteq> sqD" "sqB \<noteq> sqC" "sqB \<noteq> sqD" "sqC \<noteq> sqD"
  "sqB \<noteq> sqA" "sqC \<noteq> sqA" "sqD \<noteq> sqA" "sqC \<noteq> sqB" "sqD \<noteq> sqB" "sqD \<noteq> sqC"
  by (simp_all add: sq_defs)

lemma mk_edge_eq_iff [simp]: "mk_edge p q = mk_edge p' q' \<longleftrightarrow> p = p' \<and> q = q'"
  by (auto simp: mk_edge_def)

lemma distinct_ids_square: "distinct (map id_pt square)"
  by (simp add: square_def)

lemma spanning_tree_square_path:
  "spanning_tree square {mk_edge sqA sqB, mk_edge sqB sqC, mk_edge sqC sqD}"
proof -
  have d: "{mk_edge sqA sqB, mk_edge sqB sqC, mk_edge sqC sqD} - {mk_edge sqA sqB}
             = {mk_edge sqB sqC, mk_edge sqC sqD}"
    "{mk_edge sqA sqB, mk_edge sqB sqC, mk_edge sqC sqD} - {mk_edge sqB sqC}
             = {mk_edge sqA sqB, mk_edge sqC sqD}"
    "{mk_edge sqA sqB, mk_edge sqB sqC, mk_edge sqC sqD} - {mk_edge sqC sqD}
             = {mk_edge sqA sqB, mk_edge sqB sqC}"
    using square_points_distinct by auto
  have 1: "{mk_edge sqA sqB, mk_edge sqB sqC, mk_edge sqC sqD} \<subseteq> set (edges square)"
    by (simp add: edges_square)
  have 2: "forest {mk_edge sqA sqB, mk_edge sqB sqC, mk_edge sqC sqD}"
    unfolding forest_def by (simp add: d conn_insert_simp conn_empty)
  have 3: "\<forall>u\<in>set square. \<forall>v\<in>set square.
      (id_pt u, id_pt v) \<in> conn {mk_edge sqA sqB, mk_edge sqB sqC, mk_edge sqC sqD}"
    by (simp add: square_def conn_insert_simp conn_empty)
  from 1 2 3 show ?thesis
    unfolding spanning_tree_def by (intro conjI)
qed



subsection \<open>The builder on ids that meet in \<^verbatim>\<open>Object.prototype\<close>\<close>

text \<open>
  The list \<open>clash\<close> has the ids \<^verbatim>\<open>__proto__\<close> and \<^verbatim>\<open>undefined\<close>.  The assignment
  \<^verbatim>\<open>parent["__proto__"] = "__proto__"\<close> stores nothing, so the initial object has
  the single own property \<^verbatim>\<open>undefined\<close>.  Then \<^verbatim>\<open>find("__proto__")\<close> reads
  \<^verbatim>\<open>Object.prototype\<close>, from there \<^verbatim>\<open>parent["[object Object]"]\<close>, which is
  \<^verbatim>\<open>undefined\<close>, and from there \<^verbatim>\<open>parent["undefined"]\<close>, the id of the second point:
  both points have the root \<^verbatim>\<open>"undefined"\<close> before any edge is accepted, and the
  only candidate edge is discarded.
\<close>

lemma distinct_ids_clash: "distinct (map id_pt clash)"
  by (simp add: clash_def pt_def)

lemma edges_clash: "edges clash = [mk_edge (pt ''__proto__'' 0 0) (pt ''undefined'' 0 1)]"
  by (simp add: clash_def edges_Cons)

lemma init_parent_clash: "init_parent clash = [''undefined'' \<mapsto> Str ''undefined'']"
  by (simp add: init_parent_def clash_def set_prop_def pt_def)

lemma find_clash:
  "find_uf [''undefined'' \<mapsto> Str ''undefined''] (Str ''__proto__'')
     = Some (Str ''undefined'',
         [''undefined'' \<mapsto> Str ''undefined'', ''[object Object]'' \<mapsto> Str ''undefined''])"
  by (simp add: find_uf.simps get_prop_def set_prop_def inherited_names_def)

lemma bmst_clash: "buildMinimumSpanningTree clash = Some []"
  by (simp add: buildMinimumSpanningTree_def sorted_edges_def edges_clash init_parent_clash
      mk_edge_def pt_def find_uf.simps get_prop_def set_prop_def inherited_names_def)

lemma conn_Nil_clash: "(''__proto__'', ''undefined'') \<notin> conn (set ([] :: edge list))"
  by (simp add: conn_empty)

text \<open>The same happens when the second id is the key of \<^verbatim>\<open>Object.prototype\<close>.\<close>

lemma bmst_clash_object:
  "buildMinimumSpanningTree [pt ''__proto__'' 0 0, pt ''[object Object]'' 0 1] = Some []"
  by (simp add: buildMinimumSpanningTree_def sorted_edges_def edges_Cons init_parent_def
      mk_edge_def pt_def find_uf.simps get_prop_def set_prop_def inherited_names_def)

text \<open>
  With any other second id the point \<^verbatim>\<open>__proto__\<close> is represented by \<^verbatim>\<open>undefined\<close> and
  the edge is accepted.
\<close>

lemma bmst_proto_alone:
  "buildMinimumSpanningTree [pt ''__proto__'' 0 0, pt ''B'' 0 1]
     = Some [mk_edge (pt ''__proto__'' 0 0) (pt ''B'' 0 1)]"
  by (simp add: buildMinimumSpanningTree_def sorted_edges_def edges_Cons init_parent_def
      union_uf_def mk_edge_def pt_def find_uf.simps get_prop_def set_prop_def inherited_names_def)


section \<open>The builder on ordinary ids\<close>

text \<open>
  On every list of points whose ids are pairwise distinct and ordinary the builder
  returns a minimum spanning tree of the implicit complete graph: a list of
  distinct candidate edges, acyclic, joining every two points, whose total
  distance is at most that of every spanning tree.  On the square layout the
  result is C-D, A-B, A-D, the first three of the six sorted candidates, with no
  diagonal.
\<close>

theorem bmst_minimum_spanning_tree_ordinary:
  "(\<forall>nodes. distinct (map id_pt nodes) \<and> ordinary_ids (ids nodes) \<longrightarrow>
      (\<exists>mst. buildMinimumSpanningTree nodes = Some mst
         \<and> distinct mst \<and> spanning_tree nodes (set mst)
         \<and> (\<forall>T. spanning_tree nodes T \<longrightarrow> total_distance mst \<le> sum distance T)))
   \<and> buildMinimumSpanningTree square = Some [mk_edge sqC sqD, mk_edge sqA sqB, mk_edge sqA sqD]
   \<and> length (edges square) = 6
   \<and> [mk_edge sqC sqD, mk_edge sqA sqB, mk_edge sqA sqD] = take 3 (sorted_edges square)
   \<and> length (filter (\<lambda>e. e = mk_edge sqA sqC \<or> e = mk_edge sqB sqD)
               [mk_edge sqC sqD, mk_edge sqA sqB, mk_edge sqA sqD]) \<le> 1"
proof (intro conjI allI impI)
  fix nodes
  assume "distinct (map id_pt nodes) \<and> ordinary_ids (ids nodes)"
  then have o: "ordinary_ids (ids nodes)" ..
  let ?K = "kruskal_abs (sorted_edges nodes) []"
  have "total_distance ?K \<le> sum distance T" if "spanning_tree nodes T" for T
    using kruskal_spanning_tree(3) [OF that] kruskal_spanning_tree(2) [of nodes]
    by (simp add: total_distance_distinct)
  then show "\<exists>mst. buildMinimumSpanningTree nodes = Some mst
         \<and> distinct mst \<and> spanning_tree nodes (set mst)
         \<and> (\<forall>T. spanning_tree nodes T \<longrightarrow> total_distance mst \<le> sum distance T)"
    using bmst_kruskal [OF o] kruskal_spanning_tree(1,2) [of nodes] by blast
next
  show "buildMinimumSpanningTree square = Some [mk_edge sqC sqD, mk_edge sqA sqB, mk_edge sqA sqD]"
    by (rule bmst_square)
  show "length (edges square) = 6" by (simp add: edges_square)
  show "[mk_edge sqC sqD, mk_edge sqA sqB, mk_edge sqA sqD] = take 3 (sorted_edges square)"
    by (simp add: sorted_edges_square)
  show "length (filter (\<lambda>e. e = mk_edge sqA sqC \<or> e = mk_edge sqB sqD)
               [mk_edge sqC sqD, mk_edge sqA sqB, mk_edge sqA sqD]) \<le> 1"
    by (simp add: square_points_distinct)
qed

theorem bmst_minimum_spanning_tree_ordinary_witness:
  "distinct (map id_pt square) \<and> ordinary_ids (ids square)
   \<and> spanning_tree square {mk_edge sqA sqB, mk_edge sqB sqC, mk_edge sqC sqD}
   \<and> (\<exists>mst. buildMinimumSpanningTree square = Some mst
         \<and> distinct mst \<and> spanning_tree square (set mst)
         \<and> total_distance mst
             \<le> sum distance {mk_edge sqA sqB, mk_edge sqB sqC, mk_edge sqC sqD})"
proof -
  from bmst_minimum_spanning_tree_ordinary [THEN conjunct1, rule_format,
      OF conjI [OF distinct_ids_square ordinary_square]]
  obtain mst where mst: "buildMinimumSpanningTree square = Some mst" "distinct mst"
    "spanning_tree square (set mst)"
    "\<And>T. spanning_tree square T \<Longrightarrow> total_distance mst \<le> sum distance T"
    by blast
  from mst(4) [OF spanning_tree_square_path] mst(1,2,3)
  have "\<exists>mst. buildMinimumSpanningTree square = Some mst
         \<and> distinct mst \<and> spanning_tree square (set mst)
         \<and> total_distance mst
             \<le> sum distance {mk_edge sqA sqB, mk_edge sqB sqC, mk_edge sqC sqD}"
    by (intro exI [of _ mst] conjI)
  with distinct_ids_square ordinary_square spanning_tree_square_path show ?thesis
    by (intro conjI)
qed

text \<open>
  On such a list of \<open>N\<close> points the enumeration has \<open>N \<cdot> (N - 1) / 2\<close> edges and the
  result has \<open>N - 1\<close> edges, none for \<open>N \<le> 1\<close>.
\<close>

theorem edge_counts_ordinary:
  assumes d: "distinct (map id_pt nodes)" and o: "ordinary_ids (ids nodes)"
  shows "length (edges nodes) = length nodes * (length nodes - 1) div 2
     \<and> (\<exists>mst. buildMinimumSpanningTree nodes = Some mst
          \<and> (1 \<le> length nodes \<longrightarrow> length mst = length nodes - 1)
          \<and> (length nodes = 0 \<or> length nodes = 1 \<longrightarrow> length mst = 0))"
proof -
  have "length (kruskal_abs (sorted_edges nodes) []) = length nodes - 1"
    using d by (simp add: kruskal_length [OF o] card_ids)
  then show ?thesis
    by (auto simp: bmst_kruskal [OF o] length_edges)
qed

theorem edge_counts_ordinary_witness:
  "distinct (map id_pt square) \<and> length square = 4 \<and> length (edges square) = 6
     \<and> (\<exists>mst. buildMinimumSpanningTree square = Some mst \<and> length mst = 3)
     \<and> distinct (map id_pt [sqB]) \<and> length (edges [sqB]) = 0
     \<and> (\<exists>mst. buildMinimumSpanningTree [sqB] = Some mst \<and> length mst = 0)"
proof -
  have l4: "length square = 4" by (simp add: square_def)
  from edge_counts_ordinary [OF distinct_ids_square ordinary_square]
  have "length (edges square) = 6"
    and "\<exists>mst. buildMinimumSpanningTree square = Some mst \<and> length mst = 3"
    by (simp_all add: l4)
  moreover have "ordinary_ids (ids [sqB])" by (simp add: ordinary_ids_def)
  from edge_counts_ordinary [of "[sqB]", OF _ this]
  have "length (edges [sqB]) = 0"
    and "\<exists>mst. buildMinimumSpanningTree [sqB] = Some mst \<and> length mst = 0"
    by simp_all
  moreover have "distinct (map id_pt [sqB])" by simp
  ultimately show ?thesis using distinct_ids_square l4 by (intro conjI)
qed

text \<open>
  On such a list of at least one point the result joins every two points, the ids
  form one component, every prefix of the result is acyclic, and no edge joins
  two points that the edges before it join.
\<close>

theorem spanning_and_acyclic_ordinary:
  assumes d: "distinct (map id_pt nodes)" and o: "ordinary_ids (ids nodes)"
    and l: "1 \<le> length nodes"
  shows "\<exists>mst. buildMinimumSpanningTree nodes = Some mst
       \<and> (\<forall>u\<in>set nodes. \<forall>v\<in>set nodes. (id_pt u, id_pt v) \<in> conn (set mst))
       \<and> ids nodes // conn (set mst) = {ids nodes}
       \<and> (\<forall>k\<le>length mst. forest (set (take k mst)))
       \<and> (\<forall>k<length mst. ends (mst ! k) \<notin> conn (set (take k mst)))"
proof -
  from l have ne: "ids nodes \<noteq> {}" by (cases nodes) auto
  let ?K = "kruskal_abs (sorted_edges nodes) []"
  have st: "spanning_tree nodes (set ?K)" by (rule kruskal_spanning_tree(1))
  then have all: "\<forall>u\<in>set nodes. \<forall>v\<in>set nodes. (id_pt u, id_pt v) \<in> conn (set ?K)"
    by (simp add: spanning_tree_def)
  have "fst (ends e) \<in> ids nodes \<and> snd (ends e) \<in> ids nodes" if "e \<in> set ?K" for e
  proof -
    from st that have "e \<in> set (edges nodes)" by (auto simp: spanning_tree_def)
    then show ?thesis using edges_ends_in [of e nodes] by (simp add: ends_def)
  qed
  note ends_in = this
  have one: "ids nodes // conn (set ?K) = {ids nodes}"
  proof (rule one_component [OF ne])
    fix i j assume "i \<in> ids nodes" "j \<in> ids nodes"
    then obtain u v where "u \<in> set nodes" "v \<in> set nodes" "i = id_pt u" "j = id_pt v"
      by blast
    with all show "(i, j) \<in> conn (set ?K)" by simp
  next
    fix e assume "e \<in> set ?K"
    then show "fst (ends e) \<in> ids nodes \<and> snd (ends e) \<in> ids nodes" by (rule ends_in)
  qed
  have fK: "forest (set ?K)" using st by (simp add: spanning_tree_def)
  have pre: "\<forall>k\<le>length ?K. forest (set (take k ?K))"
  proof (intro allI impI)
    fix k show "forest (set (take k ?K))"
      using fK set_take_subset by (rule forest_subset)
  qed
  have "fresh_edges ?K" by (rule kruskal_abs_fresh) simp
  then have fr: "\<forall>k<length ?K. ends (?K ! k) \<notin> conn (set (take k ?K))"
    by (simp add: fresh_edges_def)
  from all one pre fr show ?thesis
    by (intro exI [of _ ?K] conjI bmst_kruskal [OF o])
qed

theorem spanning_and_acyclic_ordinary_witness:
  "distinct (map id_pt square) \<and> 1 \<le> length square
     \<and> (\<exists>mst. buildMinimumSpanningTree square = Some mst
          \<and> (id_pt sqB, id_pt sqC) \<in> conn (set mst)
          \<and> ids square // conn (set mst) = {ids square}
          \<and> forest (set (take 2 mst))
          \<and> ends (mst ! 2) \<notin> conn (set (take 2 mst)))"
proof -
  have len: "1 \<le> length square" by (simp add: square_def)
  from spanning_and_acyclic_ordinary [OF distinct_ids_square ordinary_square len] obtain mst where
    m: "buildMinimumSpanningTree square = Some mst
       \<and> (\<forall>u\<in>set square. \<forall>v\<in>set square. (id_pt u, id_pt v) \<in> conn (set mst))
       \<and> ids square // conn (set mst) = {ids square}
       \<and> (\<forall>k\<le>length mst. forest (set (take k mst)))
       \<and> (\<forall>k<length mst. ends (mst ! k) \<notin> conn (set (take k mst)))" ..
  note mst = m [THEN conjunct1] m [THEN conjunct2, THEN conjunct1]
    m [THEN conjunct2, THEN conjunct2, THEN conjunct1]
    m [THEN conjunct2, THEN conjunct2, THEN conjunct2, THEN conjunct1]
    m [THEN conjunct2, THEN conjunct2, THEN conjunct2, THEN conjunct2]
  from mst(1) have l3: "length mst = 3" by (auto simp: bmst_square)
  have "forest (set (take 2 mst))"
    using mst(4) [rule_format, of 2] l3 by simp
  moreover have "ends (mst ! 2) \<notin> conn (set (take 2 mst))"
    using mst(5) [rule_format, of 2] l3 by simp
  moreover have "(id_pt sqB, id_pt sqC) \<in> conn (set mst)"
    using mst(2) [rule_format, of sqB sqC] by (simp add: square_def)
  ultimately have "\<exists>mst. buildMinimumSpanningTree square = Some mst
          \<and> (id_pt sqB, id_pt sqC) \<in> conn (set mst)
          \<and> ids square // conn (set mst) = {ids square}
          \<and> forest (set (take 2 mst))
          \<and> ends (mst ! 2) \<notin> conn (set (take 2 mst))"
    using mst(1,3) by (intro exI [of _ mst] conjI)
  with distinct_ids_square len show ?thesis by (intro conjI)
qed


section \<open>The claims\<close>

text \<open>
  C1.  The claim is that for every list of points with pairwise distinct ids the
  result is a spanning tree of minimum total distance.  The two points of \<open>clash\<close>
  have distinct ids, yet the builder returns the empty list on them, and the
  empty list does not join the first point to the second: the result is not a
  spanning tree.
\<close>

theorem bmst_clash_not_spanning:
  "distinct (map id_pt clash)
   \<and> buildMinimumSpanningTree clash = Some []
   \<and> (id_pt (clash ! 0), id_pt (clash ! 1)) \<notin> conn (set ([] :: edge list))"
  using distinct_ids_clash bmst_clash conn_Nil_clash
  by (simp add: clash_def pt_def)

text \<open>
  C2.  The claim is that a list of \<open>N \<ge> 1\<close> points with pairwise distinct ids yields
  exactly \<open>N - 1\<close> edges.  The list \<open>clash\<close> has two points with distinct ids and
  one candidate edge, and the builder returns no edge.
\<close>

theorem bmst_clash_edge_count:
  "distinct (map id_pt clash) \<and> length clash = 2 \<and> length (edges clash) = 1
   \<and> (\<exists>mst. buildMinimumSpanningTree clash = Some mst
         \<and> length mst = 0 \<and> length mst \<noteq> length clash - 1)"
  using distinct_ids_clash bmst_clash
  by (simp add: edges_clash) (simp add: clash_def)

text \<open>
  C3.  The claim is that the returned edges join the points of a list with
  pairwise distinct ids into exactly one connected component.  On \<open>clash\<close> the
  returned edges leave the two ids in two components.
\<close>

theorem bmst_clash_components:
  "distinct (map id_pt clash) \<and> 1 \<le> length clash
   \<and> (\<exists>mst. buildMinimumSpanningTree clash = Some mst
         \<and> ids clash // conn (set mst) = {{''__proto__''}, {''undefined''}}
         \<and> card (ids clash // conn (set mst)) = 2)"
proof -
  have c: "conn (set ([] :: edge list)) = Id"
    by (simp add: conn_def)
  have i: "ids clash = {''__proto__'', ''undefined''}"
    by (simp add: clash_def pt_def)
  have q: "ids clash // conn (set ([] :: edge list)) = {{''__proto__''}, {''undefined''}}"
    unfolding c i quotient_def by auto
  have "card {{''__proto__''}, {''undefined''}} = 2" by simp
  with q distinct_ids_clash bmst_clash show ?thesis
    by (simp add: clash_def)
qed


text \<open>
  C6.  For every two points that share identical \<open>lat\<close> and \<open>lng\<close>, in particular
  for a point paired with itself, \<open>haversineDistance\<close> returns exactly 0.
\<close>

theorem haversineDistance_identical:
  "lat a = lat b \<Longrightarrow> lng a = lng b \<Longrightarrow> haversineDistance a b = 0"
  by (rule haversineDistance_same)

theorem haversineDistance_identical_witness:
  "lat (pt ''A'' 0 0) = lat (pt ''Z'' 0 0) \<and> lng (pt ''A'' 0 0) = lng (pt ''Z'' 0 0)
     \<and> haversineDistance (pt ''A'' 0 0) (pt ''Z'' 0 0) = 0
     \<and> haversineDistance sqC sqC = 0"
  using haversineDistance_identical [of "pt ''A'' 0 0" "pt ''Z'' 0 0"]
    haversineDistance_identical [of sqC sqC]
  by (simp add: pt_def)





text \<open>
  C9.  \<open>buildMinimumSpanningTree\<close> returns on every input list, in particular on
  every list of points with pairwise distinct ids.  After any number \<open>k\<close> of
  iterations of the selection loop the parent pointers form a forest (every
  value has a root, so no cycle of parent pointers exists), and \<open>find\<close> returns for
  every value, in particular for every key of the parent object.
\<close>

theorem builder_total:
  "(\<exists>mst. buildMinimumSpanningTree nodes = Some mst)
   \<and> (\<forall>k\<le>length (sorted_edges nodes). \<exists>parent mst.
        select_edges (take k (sorted_edges nodes)) (init_parent nodes) [] = Some (parent, mst)
        \<and> uf_inv parent
        \<and> (\<forall>v. \<exists>r parent'. find_uf parent v = Some (r, parent'))
        \<and> (\<forall>i\<in>dom parent. \<exists>r parent'. find_uf parent (Str i) = Some (r, parent')))"
proof (intro conjI allI impI)
  show "\<exists>mst. buildMinimumSpanningTree nodes = Some mst" by (rule bmst_total)
next
  fix k
  let ?es = "take k (sorted_edges nodes)"
  from select_edges_total [OF init_parent_inv, of ?es nodes "[]"] obtain p mst where
    p: "select_edges ?es (init_parent nodes) [] = Some (p, mst)" and inv: "uf_inv p"
    by blast
  have "\<exists>r parent'. find_uf p v = Some (r, parent')" for v
    using find_uf_rep [OF inv, of v] by blast
  then have f: "\<forall>v. \<exists>r parent'. find_uf p v = Some (r, parent')" ..
  then have "\<forall>i\<in>dom p. \<exists>r parent'. find_uf p (Str i) = Some (r, parent')" by blast
  with p inv f show "\<exists>parent mst.
        select_edges ?es (init_parent nodes) [] = Some (parent, mst)
        \<and> uf_inv parent
        \<and> (\<forall>v. \<exists>r parent'. find_uf parent v = Some (r, parent'))
        \<and> (\<forall>i\<in>dom parent. \<exists>r parent'. find_uf parent (Str i) = Some (r, parent'))"
    by (intro exI [of _ p] exI [of _ mst] conjI)
qed

theorem builder_total_witness:
  "2 \<le> length (sorted_edges square)
   \<and> (\<exists>mst. buildMinimumSpanningTree square = Some mst)
   \<and> (\<exists>parent mst.
        select_edges (take 2 (sorted_edges square)) (init_parent square) [] = Some (parent, mst)
        \<and> (\<exists>r. root_of parent (Str ''C'') r)
        \<and> (\<exists>r parent'. find_uf parent (Str ''C'') = Some (r, parent')))"
proof -
  have l: "2 \<le> length (sorted_edges square)" by (simp add: sorted_edges_square)
  from builder_total [of square, THEN conjunct2, rule_format, OF l] obtain parent mst where
    m: "select_edges (take 2 (sorted_edges square)) (init_parent square) [] = Some (parent, mst)
        \<and> uf_inv parent
        \<and> (\<forall>v. \<exists>r parent'. find_uf parent v = Some (r, parent'))
        \<and> (\<forall>i\<in>dom parent. \<exists>r parent'. find_uf parent (Str i) = Some (r, parent'))"
    by (elim exE)
  from m have "\<exists>r. root_of parent (Str ''C'') r" by (simp add: uf_inv_def)
  moreover from m have "\<exists>r parent'. find_uf parent (Str ''C'') = Some (r, parent')" by blast
  ultimately have "\<exists>parent mst.
        select_edges (take 2 (sorted_edges square)) (init_parent square) [] = Some (parent, mst)
        \<and> (\<exists>r. root_of parent (Str ''C'') r)
        \<and> (\<exists>r parent'. find_uf parent (Str ''C'') = Some (r, parent'))"
    using m by (intro exI [of _ parent] exI [of _ mst]) simp
  with l builder_total [of square, THEN conjunct1] show ?thesis by (intro conjI)
qed



end
